theory Spec2Isabelle
  imports
    Main
    "HOL-Library.Word"
    "HOL-Library.Sublist"
    "HOL-Library.Char_ord"
    "HOL-Library.List_Lexorder"
    "HOL-Library.Product_Lexorder"
    "HOL-Library.Multiset"
begin

section \<open>Constants and containers of kakeguruitwin\_mc.cpp\<close>

text \<open>
  The program draws sequences of \<open>U\<close> and \<open>D\<close>, looks up the eight patterns of length
  three in each of them and accumulates the positions and the pairwise comparisons over
  \<open>MCMAX\<close> trials. All counters of the source are \<open>std::uint32_t\<close>: they are modelled
  as 32-bit words, whose addition wraps around.
\<close>

type_synonym uint32 = "32 word"

text \<open>\<open>static auto constexpr MCMAX = 1000000U\<close>, used as a loop bound only.\<close>

definition MCMAX :: nat where
  "MCMAX = 1000000"

text \<open>\<open>static auto constexpr RANDNUMTABLELEN = 100U\<close>.\<close>

definition RANDNUMTABLELEN :: uint32 where
  "RANDNUMTABLELEN = 100"

definition udarray :: "string list" where
  "udarray = [''DDD'', ''DDU'', ''DUD'', ''DUU'', ''UDD'', ''UDU'', ''UUD'', ''UUU'']"

type_synonym strpair = "string \<times> string"

text \<open>
  \<open>boost::container::flat_map\<close> keeps its entries in a vector sorted by key with
  \<open>std::less\<close>, one entry per key; iterating it visits the entries in that order. The
  model is the sorted association list. \<open>std::string\<close> and \<open>std::pair\<close> compare
  lexicographically, which is the order of \<open>Char_ord\<close>, \<open>List_Lexorder\<close> and
  \<open>Product_Lexorder\<close>.
\<close>

type_synonym ('k, 'v) flat_map = "('k \<times> 'v) list"

type_synonym mymap = "(string, uint32) flat_map"
type_synonym mymap2 = "(strpair, bool) flat_map"
type_synonym mymap3 = "(strpair, uint32) flat_map"

text \<open>\<open>m.insert(std::make_pair(k, v))\<close>: a key that is already present keeps its value.\<close>

fun flat_insert :: "'k::linorder \<times> 'v \<Rightarrow> ('k, 'v) flat_map \<Rightarrow> ('k, 'v) flat_map" where
  "flat_insert (k, v) [] = [(k, v)]"
| "flat_insert (k, v) ((k', v') # m) =
     (if k < k' then (k, v) # (k', v') # m
      else if k' < k then (k', v') # flat_insert (k, v) m
      else (k', v') # m)"

text \<open>
  \<open>m[k]\<close> followed by a write through the returned reference (\<open>m[k] = c\<close>,
  \<open>m[k] += c\<close>, \<open>m[k]++\<close>): \<open>operator[]\<close> inserts a value-initialised entry, that is
  \<open>0\<close>, when the key is absent; \<open>f\<close> is the write.
\<close>

fun flat_at :: "'k::linorder \<Rightarrow> ('v::zero \<Rightarrow> 'v) \<Rightarrow> ('k, 'v) flat_map \<Rightarrow> ('k, 'v) flat_map" where
  "flat_at k f [] = [(k, f 0)]"
| "flat_at k f ((k', v') # m) =
     (if k < k' then (k, f 0) # (k', v') # m
      else if k' < k then (k', v') # flat_at k f m
      else (k', f v') # m)"

text \<open>
  \<open>tbb::concurrent_hash_map<strpair, std::uint32_t, MyHashCompare>\<close>: keys are compared
  with \<open>MyHashCompare::equal\<close>, which is equality of pairs. The model is an association
  list with one entry per key; its order stands for the unspecified iteration order of
  the table. \<open>hash_at k f\<close> is \<open>accessor a; trial.insert(a, k);\<close> followed by a write
  \<open>f\<close> to \<open>a->second\<close>: \<open>insert\<close> adds the pair \<open>(k, 0)\<close> when the key is absent and
  gives write access to the entry of \<open>k\<close> in both cases. The accessor holds the entry's
  write lock, so the whole step is atomic.
\<close>

type_synonym myhashmap = "(strpair \<times> uint32) list"

fun hash_at :: "strpair \<Rightarrow> (uint32 \<Rightarrow> uint32) \<Rightarrow> myhashmap \<Rightarrow> myhashmap" where
  "hash_at k f [] = [(k, f 0)]"
| "hash_at k f ((k', v') # t) =
     (if k' = k then (k', f v') # t else (k', v') # hash_at k f t)"

section \<open>The pair key space\<close>

text \<open>
  \<open>makecombination\<close>: a \<open>std::array<strpair, 56>\<close> of default pairs \<open>cb\<close> and a
  counter \<open>cnt\<close>, which starts at zero; two nested loops over the indices of
  \<open>udarray\<close> write the pair of the patterns at \<open>i\<close> and \<open>j\<close> to \<open>cb[cnt++]\<close> when
  \<open>i \<noteq> j\<close>. The loops leave the array and the counter.
\<close>

definition makecombination_state :: "strpair list \<times> nat" where
  "makecombination_state =
     foldl
       (\<lambda>(cb, cnt) i.
          foldl
            (\<lambda>(cb, cnt) j.
               if i \<noteq> j then (cb[cnt := (udarray ! i, udarray ! j)], cnt + 1)
               else (cb, cnt))
            (cb, cnt) [0..<length udarray])
       (replicate 56 ([], []), 0) [0..<length udarray]"

definition makecombination :: "strpair list" where
  "makecombination = fst makecombination_state"

definition cbarray :: "strpair list" where
  "cbarray = makecombination"

section \<open>The random sequence generator\<close>

text \<open>
  The random source classes \<open>myrandom::MyRand\<close> and \<open>myrandom::MyRandSfmt\<close> are
  declared in headers that are not part of the sources at hand. A source is therefore a
  parameter: a state \<open>mr\<close> of any type and the member function \<open>myrand\<close>, which returns
  a draw and the advanced state. \<open>makerandomudstr\<close> creates a string of
  \<open>RANDNUMTABLELEN\<close> zero characters and overwrites each in turn.
\<close>

fun fill_ud :: "('s \<Rightarrow> int \<times> 's) \<Rightarrow> string \<Rightarrow> 's \<Rightarrow> string \<times> 's" where
  "fill_ud myrand [] mr = ([], mr)"
| "fill_ud myrand (c # cs) mr =
     (case myrand mr of (r, mr') \<Rightarrow>
        (case fill_ud myrand cs mr' of (cs', mr'') \<Rightarrow>
           ((if r > 3 then CHR ''U'' else CHR ''D'') # cs', mr'')))"

definition makerandomudstr :: "('s \<Rightarrow> int \<times> 's) \<Rightarrow> 's \<Rightarrow> string \<times> 's" where
  "makerandomudstr myrand mr =
     fill_ud myrand (replicate (unat RANDNUMTABLELEN) (CHR 0x00)) mr"

section \<open>The pattern locator\<close>

text \<open>
  \<open>udstr.find(str)\<close> of \<open>std::string\<close>: the lowest index at which \<open>str\<close> starts in
  \<open>udstr\<close>, or \<open>npos\<close> (here \<open>None\<close>).
\<close>

fun string_find :: "string \<Rightarrow> string \<Rightarrow> nat option" where
  "string_find [] str = (if str = [] then Some 0 else None)"
| "string_find (c # cs) str =
     (if prefix str (c # cs) then Some 0 else map_option Suc (string_find cs str))"

text \<open>
  \<open>myfind\<close>: \<open>pos + 3\<close> cast to \<open>std::uint32_t\<close> when the pattern is found,
  \<open>RANDNUMTABLELEN\<close> otherwise.
\<close>

definition myfind :: "string \<Rightarrow> string \<Rightarrow> uint32" where
  "myfind str udstr =
     (case string_find udstr str of
        Some pos \<Rightarrow> of_nat (pos + 3)
      | None \<Rightarrow> RANDNUMTABLELEN)"

section \<open>One trial\<close>

text \<open>The loop of \<open>montecarloImplAvg\<close> over \<open>udarray\<close>, for the sequence \<open>udstr\<close>.\<close>

definition avg_loop :: "string \<Rightarrow> mymap" where
  "avg_loop udstr =
     foldl (\<lambda>result str. flat_insert (str, myfind str udstr) result) [] udarray"

definition montecarloImplAvg :: "('s \<Rightarrow> int \<times> 's) \<Rightarrow> 's \<Rightarrow> mymap \<times> 's" where
  "montecarloImplAvg myrand mr =
     (case makerandomudstr myrand mr of (udstr, mr') \<Rightarrow> (avg_loop udstr, mr'))"

text \<open>The loop of \<open>montecarloImplWinningAvg\<close> over \<open>cbarray\<close>, for the sequence \<open>udstr\<close>.\<close>

definition winning_loop :: "string \<Rightarrow> mymap2" where
  "winning_loop udstr =
     foldl (\<lambda>result sp.
        flat_insert (sp, myfind (fst sp) udstr < myfind (snd sp) udstr) result) [] cbarray"

definition montecarloImplWinningAvg :: "('s \<Rightarrow> int \<times> 's) \<Rightarrow> 's \<Rightarrow> mymap2 \<times> 's" where
  "montecarloImplWinningAvg myrand mr =
     (case makerandomudstr myrand mr of (udstr, mr') \<Rightarrow> (winning_loop udstr, mr'))"

text \<open>
  The body of the \<open>tbb::parallel_for\<close> of \<open>montecarloTBB\<close>: one trial. It starts from
  a fresh random source \<open>mr\<close>, passes it to \<open>montecarloImplAvg\<close> and then, advanced, to
  \<open>montecarloImplWinningAvg\<close>; the two results are appended to the two result vectors.
\<close>

definition montecarloTBB_body :: "('s \<Rightarrow> int \<times> 's) \<Rightarrow> 's \<Rightarrow> mymap \<times> mymap2" where
  "montecarloTBB_body myrand mr =
     (case montecarloImplAvg myrand mr of (avg, mr1) \<Rightarrow>
        (case montecarloImplWinningAvg myrand mr1 of (win, mr2) \<Rightarrow> (avg, win)))"

section \<open>The aggregators\<close>

text \<open>
  \<open>sumMontecarloAvg\<close>: the eight keys are set to zero, then every entry of every trial
  result is added to the entry of its key.
\<close>

definition sum_init :: mymap where
  "sum_init = foldl (\<lambda>trial str. flat_at str (\<lambda>_. 0) trial) [] udarray"

text \<open>The inner loop, over the entries of one trial result \<open>mcr\<close>.\<close>

definition sum_step :: "mymap \<Rightarrow> mymap \<Rightarrow> mymap" where
  "sum_step trial mcr = foldl (\<lambda>trial (k, v). flat_at k (\<lambda>x. x + v) trial) trial mcr"

definition sumMontecarloAvg :: "mymap list \<Rightarrow> mymap" where
  "sumMontecarloAvg mcresultavg = foldl sum_step sum_init mcresultavg"

text \<open>
  \<open>aggregateWinningAvg\<close> (the \<open>tbb::concurrent_vector\<close> overload). First loop: every
  pair of \<open>cbarray\<close> is inserted into the hash map and set to zero.
\<close>

definition winning_init :: myhashmap where
  "winning_init = foldl (\<lambda>trial sp. hash_at sp (\<lambda>_. 0) trial) [] cbarray"

text \<open>
  The body of the parallel loop for one trial result \<open>mcr\<close>: every entry whose outcome is
  \<open>true\<close> increments the counter of its key.
\<close>

definition winning_step :: "myhashmap \<Rightarrow> mymap2 \<Rightarrow> myhashmap" where
  "winning_step trial mcr =
     foldl (\<lambda>trial (k, b). if b then hash_at k (\<lambda>x. x + 1) trial else trial) trial mcr"

text \<open>The last loop copies the hash map into a \<open>flat_map\<close>.\<close>

definition winning_copy :: "myhashmap \<Rightarrow> mymap3" where
  "winning_copy trial = foldl (\<lambda>trialwinningavg (k, v). flat_at k (\<lambda>_. v) trialwinningavg) [] trial"

text \<open>
  The parallel loop runs over the indices \<open>0 .. MCMAX - 1\<close> whatever the size of the
  vector is; reading \<open>mcresultwinningavg[i]\<close> beyond the size of the vector is undefined
  behaviour, here \<open>None\<close>. The loop is modelled in index order. Its only shared
  effect is the atomic increment under the accessor, and the returned map is the same
  for every order of the increments (lemma \<open>aggregateWinningAvg_schedule\<close> below).
\<close>

definition aggregateWinningAvg :: "mymap2 list \<Rightarrow> mymap3 option" where
  "aggregateWinningAvg mcresultwinningavg =
     (if length mcresultwinningavg < MCMAX then None
      else Some (winning_copy
        (foldl (\<lambda>trial i. winning_step trial (mcresultwinningavg ! i))
           winning_init [0..<MCMAX])))"

section \<open>Notions of the specification\<close>

text \<open>The keys of a map, and the value it holds for a key, \<open>0\<close> for a key it does not hold.\<close>

definition keys_of :: "('k \<times> 'v) list \<Rightarrow> 'k set" where
  "keys_of m = fst ` set m"

definition lookup0 :: "('k \<times> 'v::zero) list \<Rightarrow> 'k \<Rightarrow> 'v" where
  "lookup0 m k = (case map_of m k of None \<Rightarrow> 0 | Some v \<Rightarrow> v)"

text \<open>
  The pattern \<open>str\<close> occurs in \<open>udstr\<close> at the 0-based start index \<open>i\<close> as a contiguous
  substring; \<open>i\<close> is the lowest such index.
\<close>

definition occurs_at :: "string \<Rightarrow> string \<Rightarrow> nat \<Rightarrow> bool" where
  "occurs_at str udstr i \<longleftrightarrow>
     i + length str \<le> length udstr \<and> take (length str) (drop i udstr) = str"

definition lowest_start_index :: "string \<Rightarrow> string \<Rightarrow> nat \<Rightarrow> bool" where
  "lowest_start_index str udstr i \<longleftrightarrow>
     occurs_at str udstr i \<and> (\<forall>j<i. \<not> occurs_at str udstr j)"

text \<open>The number of trial results in which the outcome recorded for the pair \<open>sp\<close> is true.\<close>

definition win_count :: "strpair \<Rightarrow> mymap2 list \<Rightarrow> nat" where
  "win_count sp rs = length (filter (\<lambda>r. map_of r sp = Some True) rs)"

text \<open>The first \<open>n\<close> draws of a random source in the state \<open>mr\<close>.\<close>

primrec draws :: "('s \<Rightarrow> int \<times> 's) \<Rightarrow> nat \<Rightarrow> 's \<Rightarrow> int list" where
  "draws myrand 0 mr = []"
| "draws myrand (Suc n) mr = fst (myrand mr) # draws myrand n (snd (myrand mr))"

text \<open>
  A random source for concrete runs: a die whose draws cycle through \<open>1, \<dots>, 6\<close>, the
  range the program asks of \<open>MyRand\<close>; its state counts the draws made.
\<close>

definition cyclic_die :: "nat \<Rightarrow> int \<times> nat" where
  "cyclic_die n = (int (n mod 6) + 1, n + 1)"

text \<open>
  Three sequences of length 100 for concrete runs: the first and the second hundred
  symbols this die yields (\<open>DDDUUU\<close> repeated, and \<open>UUDDDU\<close> repeated), and 99 times
  \<open>U\<close> followed by \<open>D\<close>.
\<close>

definition cyclic_first :: string where
  "cyclic_first =
     ''DDDUUUDDDUUUDDDUUUDDDUUUDDDUUUDDDUUUDDDUUUDDDUUUDD'' @
     ''DUUUDDDUUUDDDUUUDDDUUUDDDUUUDDDUUUDDDUUUDDDUUUDDDU''"

definition cyclic_second :: string where
  "cyclic_second =
     ''UUDDDUUUDDDUUUDDDUUUDDDUUUDDDUUUDDDUUUDDDUUUDDDUUU'' @
     ''DDDUUUDDDUUUDDDUUUDDDUUUDDDUUUDDDUUUDDDUUUDDDUUUDD''"

definition late_UUD :: string where
  "late_UUD =
     ''UUUUUUUUUUUUUUUUUUUUUUUUUUUUUUUUUUUUUUUUUUUUUUUUUU'' @
     ''UUUUUUUUUUUUUUUUUUUUUUUUUUUUUUUUUUUUUUUUUUUUUUUUUD''"

text \<open>
  A Trial Expectation Result holds one position for each of the eight patterns, none
  beyond the sentinel; a Trial Win Result holds one outcome for each of the 56 pairs.
\<close>

definition trial_expectation_result :: "mymap \<Rightarrow> bool" where
  "trial_expectation_result r \<longleftrightarrow>
     map fst r = udarray \<and> list_all (\<lambda>v. v \<le> RANDNUMTABLELEN) (map snd r)"

definition trial_win_result :: "mymap2 \<Rightarrow> bool" where
  "trial_win_result r \<longleftrightarrow> map fst r = cbarray"

text \<open>
  The keys of the atomic increments the parallel loop of \<open>aggregateWinningAvg\<close> performs,
  listed in index order. Any execution of the loop performs them in some order.
\<close>

definition increments :: "mymap2 list \<Rightarrow> strpair list" where
  "increments mcresultwinningavg =
     concat (map (\<lambda>mcr. map fst (filter snd mcr)) mcresultwinningavg)"

section \<open>The patterns and the pairs\<close>

text \<open>The counter of \<open>makecombination\<close> ends at 56: every write is within the array.\<close>

lemma makecombination_counter: "snd makecombination_state = 56"
  by code_simp

lemma cbarray_conv:
  "cbarray = concat (map (\<lambda>a. map (Pair a) (filter (\<lambda>b. b \<noteq> a) udarray)) udarray)"
  unfolding cbarray_def by code_simp

lemma sorted_udarray: "sorted_wrt (<) udarray"
  by (simp add: udarray_def)

lemma sorted_cbarray: "sorted_wrt (<) cbarray"
  by code_simp

lemma length_cbarray: "length cbarray = 56"
  by code_simp

lemma distinct_cbarray: "distinct cbarray"
  using sorted_cbarray strict_sorted_iff by blast

lemma set_cbarray:
  "set cbarray = {(a, b). a \<in> set udarray \<and> b \<in> set udarray \<and> a \<noteq> b}"
  by (auto simp add: cbarray_conv)

lemma length_udarray: "str \<in> set udarray \<Longrightarrow> length str = 3"
  by (auto simp add: udarray_def)

section \<open>Inserting keys in ascending order\<close>

lemma flat_insert_append:
  "\<forall>k'\<in>set (map fst m). k' < k \<Longrightarrow> flat_insert (k, v) m = m @ [(k, v)]"
  by (induction m) auto

lemma foldl_flat_insert_sorted:
  "sorted_wrt (<) (map fst m @ ks) \<Longrightarrow>
   foldl (\<lambda>result k. flat_insert (k, f k) result) m ks = m @ map (\<lambda>k. (k, f k)) ks"
proof (induction ks arbitrary: m)
  case Nil
  then show ?case by simp
next
  case (Cons k ks)
  from Cons.prems have less: "\<forall>k'\<in>set (map fst m). k' < k"
    by (simp add: sorted_wrt_append)
  from Cons.prems have "sorted_wrt (<) (map fst (m @ [(k, f k)]) @ ks)"
    by simp
  then have "foldl (\<lambda>result k. flat_insert (k, f k) result) (m @ [(k, f k)]) ks =
    (m @ [(k, f k)]) @ map (\<lambda>k. (k, f k)) ks"
    by (rule Cons.IH)
  with less show ?case
    by (simp add: flat_insert_append)
qed

lemma avg_loop_conv: "avg_loop udstr = map (\<lambda>str. (str, myfind str udstr)) udarray"
  unfolding avg_loop_def
  using foldl_flat_insert_sorted [of "[]" udarray "\<lambda>str. myfind str udstr"] sorted_udarray
  by simp

lemma winning_loop_conv:
  "winning_loop udstr =
     map (\<lambda>sp. (sp, myfind (fst sp) udstr < myfind (snd sp) udstr)) cbarray"
  unfolding winning_loop_def
  using foldl_flat_insert_sorted
    [of "[]" cbarray "\<lambda>sp. myfind (fst sp) udstr < myfind (snd sp) udstr"] sorted_cbarray
  by simp

section \<open>The search of \<open>std::string::find\<close>\<close>

lemma occurs_at_0: "occurs_at str udstr 0 \<longleftrightarrow> prefix str udstr"
proof
  assume "occurs_at str udstr 0"
  then have "udstr = str @ drop (length str) udstr"
    by (metis occurs_at_def drop0 append_take_drop_id)
  then show "prefix str udstr"
    by (rule prefixI)
next
  assume "prefix str udstr"
  then show "occurs_at str udstr 0"
    by (auto simp add: occurs_at_def prefix_def)
qed

lemma occurs_at_Suc: "occurs_at str (c # cs) (Suc i) \<longleftrightarrow> occurs_at str cs i"
  by (simp add: occurs_at_def)

lemma occurs_at_Nil: "occurs_at str [] i \<longleftrightarrow> str = [] \<and> i = 0"
  by (auto simp add: occurs_at_def)

lemma lowest_start_index_Cons:
  "lowest_start_index str (c # cs) i \<longleftrightarrow>
     (if prefix str (c # cs) then i = 0 else \<exists>j. i = Suc j \<and> lowest_start_index str cs j)"
proof (cases i)
  case 0
  then show ?thesis
    by (simp add: lowest_start_index_def occurs_at_0)
next
  case (Suc j)
  have "(\<forall>j'<Suc j. \<not> occurs_at str (c # cs) j') \<longleftrightarrow>
    \<not> occurs_at str (c # cs) 0 \<and> (\<forall>j'<j. \<not> occurs_at str cs j')"
    by (auto simp add: less_Suc_eq_0_disj occurs_at_Suc)
  with Suc show ?thesis
    by (auto simp add: lowest_start_index_def occurs_at_Suc occurs_at_0)
qed

lemma string_find_Some_iff:
  "string_find udstr str = Some i \<longleftrightarrow> lowest_start_index str udstr i"
proof (induction udstr arbitrary: i)
  case Nil
  show ?case
    by (auto simp add: lowest_start_index_def occurs_at_Nil)
next
  case (Cons c cs)
  show ?case
    by (auto simp add: lowest_start_index_Cons Cons.IH)
qed

lemma sublist_iff_occurs_at: "sublist str udstr \<longleftrightarrow> (\<exists>i. occurs_at str udstr i)"
proof
  assume "sublist str udstr"
  then obtain ps ss where "udstr = ps @ str @ ss"
    by (auto simp add: sublist_def)
  then have "occurs_at str udstr (length ps)"
    by (simp add: occurs_at_def)
  then show "\<exists>i. occurs_at str udstr i" ..
next
  assume "\<exists>i. occurs_at str udstr i"
  then obtain i where i: "occurs_at str udstr i" ..
  then have "udstr = take i udstr @ str @ drop (i + length str) udstr"
    by (metis occurs_at_def append_take_drop_id drop_drop add.commute)
  then show "sublist str udstr"
    unfolding sublist_def by blast
qed

lemma string_find_None_iff: "string_find udstr str = None \<longleftrightarrow> \<not> sublist str udstr"
proof (induction udstr)
  case Nil
  show ?case by auto
next
  case (Cons c cs)
  show ?case
    by (auto simp add: Cons.IH sublist_Cons_right)
qed

section \<open>Writing through \<open>operator[]\<close> and through an accessor\<close>

lemma keys_flat_at: "fst ` set (flat_at k f m) = insert k (fst ` set m)"
proof (induction m)
  case Nil
  show ?case by simp
next
  case (Cons e m)
  obtain k' v' where e: "e = (k', v')" by (cases e)
  consider "k < k'" | "k' < k" | "k = k'"
    by (metis less_linear)
  then show ?case
  proof cases
    case 1
    with e show ?thesis by simp
  next
    case 2
    with e Cons.IH show ?thesis by auto
  next
    case 3
    with e show ?thesis by simp
  qed
qed

lemma sorted_flat_at:
  "sorted_wrt (<) (map fst m) \<Longrightarrow> sorted_wrt (<) (map fst (flat_at k f m))"
proof (induction m)
  case Nil
  show ?case by simp
next
  case (Cons e m)
  obtain k' v' where e: "e = (k', v')" by (cases e)
  from Cons.prems e have less: "\<forall>x\<in>fst ` set m. k' < x" and sorted: "sorted_wrt (<) (map fst m)"
    by auto
  consider "k < k'" | "k' < k" | "k = k'"
    by (metis less_linear)
  then show ?case
  proof cases
    case 1
    with less have "\<forall>x\<in>fst ` set m. k < x"
      by (meson less_trans)
    with 1 e less sorted show ?thesis by simp
  next
    case 2
    from 2 less have "\<forall>x\<in>fst ` set (flat_at k f m). k' < x"
      by (simp add: keys_flat_at)
    moreover from 2 have "\<not> k < k'"
      by simp
    ultimately show ?thesis
      using 2 e Cons.IH [OF sorted] by simp
  next
    case 3
    with e less sorted show ?thesis by simp
  qed
qed

lemma map_of_flat_at:
  "sorted_wrt (<) (map fst m) \<Longrightarrow>
   map_of (flat_at k f m) = (map_of m)(k \<mapsto> f (case map_of m k of None \<Rightarrow> 0 | Some v \<Rightarrow> v))"
proof (induction m)
  case Nil
  show ?case by simp
next
  case (Cons e m)
  obtain k' v' where e: "e = (k', v')" by (cases e)
  from Cons.prems e have less: "\<forall>x\<in>fst ` set m. k' < x" and sorted: "sorted_wrt (<) (map fst m)"
    by auto
  consider "k < k'" | "k' < k" | "k = k'"
    by (metis less_linear)
  then show ?case
  proof cases
    case 1
    with less have "k \<notin> fst ` set m"
      by (meson less_asym less_trans)
    then have "map_of m k = None"
      by (simp add: map_of_eq_None_iff)
    with 1 e show ?thesis
      by (auto simp add: fun_eq_iff)
  next
    case 2
    then have "\<not> k < k'"
      by simp
    with 2 e Cons.IH [OF sorted] show ?thesis
      by (auto simp add: fun_eq_iff)
  next
    case 3
    with e show ?thesis
      by (auto simp add: fun_eq_iff)
  qed
qed

lemma keys_hash_at: "fst ` set (hash_at k f t) = insert k (fst ` set t)"
proof (induction t)
  case Nil
  show ?case by simp
next
  case (Cons e t)
  obtain k' v' where e: "e = (k', v')" by (cases e)
  show ?case
  proof (cases "k' = k")
    case True
    with e show ?thesis by simp
  next
    case False
    with e Cons.IH show ?thesis by auto
  qed
qed

lemma distinct_hash_at:
  "distinct (map fst t) \<Longrightarrow> distinct (map fst (hash_at k f t))"
proof (induction t)
  case Nil
  show ?case by simp
next
  case (Cons e t)
  obtain k' v' where e: "e = (k', v')" by (cases e)
  show ?case
  proof (cases "k' = k")
    case True
    with e Cons.prems show ?thesis by simp
  next
    case False
    with e Cons show ?thesis by (simp add: keys_hash_at)
  qed
qed

lemma map_of_hash_at:
  "map_of (hash_at k f t) = (map_of t)(k \<mapsto> f (case map_of t k of None \<Rightarrow> 0 | Some v \<Rightarrow> v))"
proof (induction t)
  case Nil
  show ?case by simp
next
  case (Cons e t)
  obtain k' v' where e: "e = (k', v')" by (cases e)
  show ?case
  proof (cases "k' = k")
    case True
    with e show ?thesis by (auto simp add: fun_eq_iff)
  next
    case False
    with e Cons.IH show ?thesis by (auto simp add: fun_eq_iff)
  qed
qed

lemma keys_of_flat_at: "keys_of (flat_at k f m) = insert k (keys_of m)"
  by (simp add: keys_of_def keys_flat_at)

lemma keys_of_hash_at: "keys_of (hash_at k f t) = insert k (keys_of t)"
  by (simp add: keys_of_def keys_hash_at)

lemma keys_of_Nil: "keys_of [] = {}"
  by (simp add: keys_of_def)

lemma keys_of_Cons: "keys_of (e # m) = insert (fst e) (keys_of m)"
  by (simp add: keys_of_def)

lemma keys_of_map_fst: "keys_of m = set (map fst m)"
  by (simp add: keys_of_def)

lemma lookup0_flat_at:
  "sorted_wrt (<) (map fst m) \<Longrightarrow>
   lookup0 (flat_at k f m) p = (if p = k then f (lookup0 m k) else lookup0 m p)"
  by (simp add: lookup0_def map_of_flat_at)

lemma lookup0_hash_at:
  "lookup0 (hash_at k f t) p = (if p = k then f (lookup0 t k) else lookup0 t p)"
  by (simp add: lookup0_def map_of_hash_at)

lemma lookup0_not_key: "p \<notin> keys_of m \<Longrightarrow> lookup0 m p = 0"
  by (simp add: lookup0_def keys_of_def map_of_eq_None_iff [THEN iffD2])

lemma lookup0_Cons: "lookup0 ((k, v) # m) p = (if p = k then v else lookup0 m p)"
  by (simp add: lookup0_def)

section \<open>Sums of words\<close>

lemma unat_sum_list:
  "(\<Sum>x\<leftarrow>xs. unat (f x)) < 2 ^ LENGTH('a) \<Longrightarrow>
   unat (\<Sum>x\<leftarrow>xs. (f x :: 'a::len word)) = (\<Sum>x\<leftarrow>xs. unat (f x))"
proof (induction xs)
  case Nil
  show ?case by simp
next
  case (Cons x xs)
  from Cons.prems have "(\<Sum>x\<leftarrow>xs. unat (f x)) < 2 ^ LENGTH('a)"
    by simp
  then have "unat (\<Sum>x\<leftarrow>xs. f x) = (\<Sum>x\<leftarrow>xs. unat (f x))"
    by (rule Cons.IH)
  moreover from this Cons.prems
  have "unat (f x) + unat (\<Sum>x\<leftarrow>xs. f x) < 2 ^ LENGTH('a)"
    by simp
  then have "unat (f x + (\<Sum>x\<leftarrow>xs. f x)) = unat (f x) + unat (\<Sum>x\<leftarrow>xs. f x)"
    by (simp add: unat_add_lem)
  ultimately show ?case by simp
qed

lemma sum_list_indicator:
  "(\<Sum>x\<leftarrow>xs. if P x then 1 else 0) = (of_nat (length (filter P xs)) :: 'a::len word)"
  by (induction xs) simp_all

lemma sum_list_no_key:
  "p \<notin> keys_of r \<Longrightarrow> (\<Sum>e\<leftarrow>r. if fst e = p \<and> P e then g e else 0) = (0 :: 'a::len word)"
  by (induction r) (auto simp add: keys_of_Cons)

lemma sum_list_key:
  "distinct (map fst r) \<Longrightarrow>
   (\<Sum>e\<leftarrow>r. if fst e = p then snd e else 0) = (lookup0 r p :: 'a::len word)"
proof (induction r)
  case Nil
  show ?case by (simp add: lookup0_def)
next
  case (Cons e r)
  obtain k v where e: "e = (k, v)" by (cases e)
  show ?case
  proof (cases "k = p")
    case True
    with Cons.prems e have "p \<notin> keys_of r"
      by (simp add: keys_of_map_fst)
    then have "(\<Sum>e\<leftarrow>r. if fst e = p \<and> True then snd e else 0) = (0 :: 'a word)"
      by (rule sum_list_no_key)
    with True e show ?thesis
      by (simp add: lookup0_Cons)
  next
    case False
    with Cons e show ?thesis
      by (simp add: lookup0_Cons)
  qed
qed

lemma sum_list_key_true:
  "distinct (map fst r) \<Longrightarrow>
   (\<Sum>e\<leftarrow>r. if fst e = p \<and> snd e then 1 else 0) =
     (if map_of r p = Some True then 1 else 0 :: 'a::len word)"
proof (induction r)
  case Nil
  show ?case by simp
next
  case (Cons e r)
  obtain k v where e: "e = (k, v)" by (cases e)
  show ?case
  proof (cases "k = p")
    case True
    with Cons.prems e have "p \<notin> keys_of r"
      by (simp add: keys_of_map_fst)
    then have "(\<Sum>e\<leftarrow>r. if fst e = p \<and> snd e then 1 else 0) = (0 :: 'a word)"
      by (rule sum_list_no_key)
    with True e show ?thesis
      by simp
  next
    case False
    with Cons e show ?thesis
      by simp
  qed
qed

section \<open>The expectation aggregator\<close>

lemma sum_step_Nil: "sum_step t [] = t"
  by (simp add: sum_step_def)

lemma sum_step_Cons: "sum_step t ((k, v) # mcr) = sum_step (flat_at k (\<lambda>x. x + v) t) mcr"
  by (simp add: sum_step_def)

lemma sum_step_sorted:
  "sorted_wrt (<) (map fst t) \<Longrightarrow> sorted_wrt (<) (map fst (sum_step t mcr))"
proof (induction mcr arbitrary: t)
  case Nil
  then show ?case by (simp add: sum_step_Nil)
next
  case (Cons e mcr)
  obtain k v where e: "e = (k, v)" by (cases e)
  from Cons.prems have "sorted_wrt (<) (map fst (flat_at k (\<lambda>x. x + v) t))"
    by (rule sorted_flat_at)
  then show ?case
    unfolding e sum_step_Cons by (rule Cons.IH)
qed

lemma sum_step_keys: "keys_of (sum_step t mcr) = keys_of t \<union> keys_of mcr"
proof (induction mcr arbitrary: t)
  case Nil
  show ?case by (simp add: sum_step_Nil keys_of_Nil)
next
  case (Cons e mcr)
  obtain k v where e: "e = (k, v)" by (cases e)
  show ?case
    unfolding e sum_step_Cons Cons.IH by (simp add: keys_of_flat_at keys_of_Cons)
qed

lemma sum_step_lookup0:
  "sorted_wrt (<) (map fst t) \<Longrightarrow>
   lookup0 (sum_step t mcr) p = lookup0 t p + (\<Sum>e\<leftarrow>mcr. if fst e = p then snd e else 0)"
proof (induction mcr arbitrary: t)
  case Nil
  show ?case by (simp add: sum_step_Nil)
next
  case (Cons e mcr)
  obtain k v where e: "e = (k, v)" by (cases e)
  from Cons.prems have "sorted_wrt (<) (map fst (flat_at k (\<lambda>x. x + v) t))"
    by (rule sorted_flat_at)
  from Cons.IH [OF this] Cons.prems show ?case
    unfolding e sum_step_Cons by (simp add: lookup0_flat_at)
qed

lemma sum_init_conv: "sum_init = map (\<lambda>str. (str, 0)) udarray"
  unfolding sum_init_def by code_simp

lemma foldl_sum_step_sorted:
  "sorted_wrt (<) (map fst t) \<Longrightarrow> sorted_wrt (<) (map fst (foldl sum_step t rs))"
  by (induction rs arbitrary: t) (simp_all add: sum_step_sorted)

lemma foldl_sum_step_keys:
  "\<forall>r\<in>set rs. keys_of r \<subseteq> keys_of t \<Longrightarrow> keys_of (foldl sum_step t rs) = keys_of t"
proof (induction rs arbitrary: t)
  case Nil
  show ?case by simp
next
  case (Cons r rs)
  from Cons.prems have eq: "keys_of (sum_step t r) = keys_of t"
    by (auto simp add: sum_step_keys)
  from Cons.prems have "\<forall>r'\<in>set rs. keys_of r' \<subseteq> keys_of (sum_step t r)"
    by (simp add: eq)
  from Cons.IH [OF this] eq show ?case
    by simp
qed

lemma foldl_sum_step_lookup0:
  "sorted_wrt (<) (map fst t) \<Longrightarrow>
   lookup0 (foldl sum_step t rs) p =
     lookup0 t p + (\<Sum>r\<leftarrow>rs. \<Sum>e\<leftarrow>r. if fst e = p then snd e else 0)"
proof (induction rs arbitrary: t)
  case Nil
  show ?case by simp
next
  case (Cons r rs)
  from Cons.prems have "sorted_wrt (<) (map fst (sum_step t r))"
    by (rule sum_step_sorted)
  from Cons.IH [OF this] Cons.prems show ?case
    by (simp add: sum_step_lookup0 add.assoc)
qed

lemma flat_map_conv:
  "map fst m = ks \<Longrightarrow> distinct ks \<Longrightarrow> m = map (\<lambda>k. (k, lookup0 m k)) ks"
proof (induction m arbitrary: ks)
  case Nil
  then show ?case by simp
next
  case (Cons e m)
  obtain k v where e: "e = (k, v)" by (cases e)
  from Cons.prems e have ks: "ks = k # map fst m"
    by auto
  with Cons.prems have "distinct (k # map fst m)"
    by simp
  then have d: "distinct (map fst m)" and k: "k \<notin> set (map fst m)"
    by (simp_all del: set_map)
  from Cons.IH [OF refl d] have m: "m = map (\<lambda>k. (k, lookup0 m k)) (map fst m)" .
  have "map (\<lambda>k'. (k', lookup0 ((k, v) # m) k')) (map fst m) =
    map (\<lambda>k. (k, lookup0 m k)) (map fst m)"
  proof (rule map_cong [OF refl])
    fix x
    assume "x \<in> set (map fst m)"
    with k have "x \<noteq> k" by blast
    then show "(x, lookup0 ((k, v) # m) x) = (x, lookup0 m x)"
      by (simp add: lookup0_Cons)
  qed
  with m have "m = map (\<lambda>k'. (k', lookup0 ((k, v) # m) k')) (map fst m)"
    by simp
  then show ?case
    unfolding e ks by (simp add: lookup0_Cons)
qed

lemma distinct_udarray: "distinct udarray"
  using sorted_udarray strict_sorted_iff by blast

lemma sumMontecarloAvg_conv:
  assumes keys: "\<forall>r\<in>set rs. map fst r = udarray"
  shows "sumMontecarloAvg rs = map (\<lambda>str. (str, \<Sum>r\<leftarrow>rs. lookup0 r str)) udarray"
proof -
  have init_sorted: "sorted_wrt (<) (map fst sum_init)"
    using sorted_udarray by (simp add: sum_init_conv comp_def)
  have init_keys: "keys_of sum_init = set udarray"
    by (simp add: keys_of_map_fst sum_init_conv comp_def)
  have init_zero: "lookup0 sum_init p = 0" for p
    by (simp add: sum_init_conv lookup0_def map_of_map_restrict restrict_map_def)
  have sorted: "sorted_wrt (<) (map fst (sumMontecarloAvg rs))"
    unfolding sumMontecarloAvg_def using init_sorted by (rule foldl_sum_step_sorted)
  have "\<forall>r\<in>set rs. keys_of r \<subseteq> keys_of sum_init"
  proof
    fix r
    assume "r \<in> set rs"
    with keys have "map fst r = udarray"
      by simp
    then have "keys_of r = set udarray"
      by (simp only: keys_of_map_fst)
    then show "keys_of r \<subseteq> keys_of sum_init"
      by (simp only: init_keys subset_refl)
  qed
  then have "keys_of (sumMontecarloAvg rs) = set udarray"
    unfolding sumMontecarloAvg_def by (simp add: foldl_sum_step_keys init_keys)
  then have "set (map fst (sumMontecarloAvg rs)) = set udarray"
    by (simp add: keys_of_map_fst)
  with sorted_udarray sorted have fst: "map fst (sumMontecarloAvg rs) = udarray"
    by (rule strict_sorted_equal)
  have "lookup0 (sumMontecarloAvg rs) p = (\<Sum>r\<leftarrow>rs. lookup0 r p)" for p
  proof -
    have "lookup0 (sumMontecarloAvg rs) p =
      (\<Sum>r\<leftarrow>rs. \<Sum>e\<leftarrow>r. if fst e = p then snd e else 0)"
      unfolding sumMontecarloAvg_def
      by (simp add: foldl_sum_step_lookup0 [OF init_sorted] init_zero)
    also have "\<dots> = (\<Sum>r\<leftarrow>rs. lookup0 r p)"
    proof (rule arg_cong [where f = sum_list], rule map_cong [OF refl])
      fix r
      assume "r \<in> set rs"
      with keys distinct_udarray have "distinct (map fst r)"
        by simp
      then show "(\<Sum>e\<leftarrow>r. if fst e = p then snd e else 0) = lookup0 r p"
        by (rule sum_list_key)
    qed
    finally show ?thesis .
  qed
  with flat_map_conv [OF fst distinct_udarray] show ?thesis
    by simp
qed

section \<open>The win-rate aggregator\<close>

lemma hash_at_append: "k \<notin> keys_of t \<Longrightarrow> hash_at k f t = t @ [(k, f 0)]"
  by (induction t) (auto simp add: keys_of_Cons)

lemma foldl_hash_at_distinct:
  "distinct ks \<Longrightarrow> keys_of t \<inter> set ks = {} \<Longrightarrow>
   foldl (\<lambda>trial sp. hash_at sp (\<lambda>_. c) trial) t ks = t @ map (\<lambda>sp. (sp, c)) ks"
proof (induction ks arbitrary: t)
  case Nil
  show ?case by simp
next
  case (Cons k ks)
  from Cons.prems have k: "k \<notin> keys_of t"
    by simp
  from Cons.prems have "keys_of (t @ [(k, c)]) \<inter> set ks = {}"
    by (auto simp add: keys_of_def)
  with Cons.prems have "foldl (\<lambda>trial sp. hash_at sp (\<lambda>_. c) trial) (t @ [(k, c)]) ks =
    (t @ [(k, c)]) @ map (\<lambda>sp. (sp, c)) ks"
    by (simp add: Cons.IH)
  with k show ?case
    by (simp add: hash_at_append)
qed

lemma winning_init_conv: "winning_init = map (\<lambda>sp. (sp, 0)) cbarray"
  unfolding winning_init_def
  using foldl_hash_at_distinct [OF distinct_cbarray, of "[]" 0]
  by (simp add: keys_of_Nil)

lemma winning_step_Nil: "winning_step t [] = t"
  by (simp add: winning_step_def)

lemma winning_step_Cons:
  "winning_step t ((k, b) # mcr) =
     winning_step (if b then hash_at k (\<lambda>x. x + 1) t else t) mcr"
  by (simp add: winning_step_def)

lemma winning_step_distinct:
  "distinct (map fst t) \<Longrightarrow> distinct (map fst (winning_step t mcr))"
proof (induction mcr arbitrary: t)
  case Nil
  then show ?case by (simp add: winning_step_Nil)
next
  case (Cons e mcr)
  obtain k b where e: "e = (k, b)" by (cases e)
  from Cons.prems have "distinct (map fst (if b then hash_at k (\<lambda>x. x + 1) t else t))"
    by (simp add: distinct_hash_at)
  then show ?case
    unfolding e winning_step_Cons by (rule Cons.IH)
qed

lemma winning_step_keys:
  "keys_of mcr \<subseteq> keys_of t \<Longrightarrow> keys_of (winning_step t mcr) = keys_of t"
proof (induction mcr arbitrary: t)
  case Nil
  show ?case by (simp add: winning_step_Nil)
next
  case (Cons e mcr)
  obtain k b where e: "e = (k, b)" by (cases e)
  from Cons.prems e have k: "k \<in> keys_of t" and mcr: "keys_of mcr \<subseteq> keys_of t"
    by (simp_all add: keys_of_Cons)
  from k have eq: "keys_of (if b then hash_at k (\<lambda>x. x + 1) t else t) = keys_of t"
    by (auto simp add: keys_of_hash_at)
  with mcr have "keys_of mcr \<subseteq> keys_of (if b then hash_at k (\<lambda>x. x + 1) t else t)"
    by simp
  from Cons.IH [OF this] eq show ?case
    unfolding e winning_step_Cons by simp
qed

lemma winning_step_lookup0:
  "lookup0 (winning_step t mcr) p =
     lookup0 t p + (\<Sum>e\<leftarrow>mcr. if fst e = p \<and> snd e then 1 else 0)"
proof (induction mcr arbitrary: t)
  case Nil
  show ?case by (simp add: winning_step_Nil)
next
  case (Cons e mcr)
  obtain k b where e: "e = (k, b)" by (cases e)
  show ?case
    unfolding e winning_step_Cons Cons.IH by (simp add: lookup0_hash_at)
qed

lemma foldl_nth_take:
  "n \<le> length xs \<Longrightarrow> foldl (\<lambda>s i. g s (xs ! i)) s [0..<n] = foldl g s (take n xs)"
proof (induction n)
  case 0
  show ?case by simp
next
  case (Suc n)
  then show ?case
    by (simp add: take_Suc_conv_app_nth)
qed

lemma foldl_winning_step_distinct:
  "distinct (map fst t) \<Longrightarrow> distinct (map fst (foldl winning_step t rs))"
  by (induction rs arbitrary: t) (simp_all add: winning_step_distinct)

lemma foldl_winning_step_keys:
  "\<forall>r\<in>set rs. keys_of r \<subseteq> keys_of t \<Longrightarrow> keys_of (foldl winning_step t rs) = keys_of t"
proof (induction rs arbitrary: t)
  case Nil
  show ?case by simp
next
  case (Cons r rs)
  from Cons.prems have eq: "keys_of (winning_step t r) = keys_of t"
    by (simp add: winning_step_keys)
  from Cons.prems have "\<forall>r'\<in>set rs. keys_of r' \<subseteq> keys_of (winning_step t r)"
    by (simp add: eq)
  from Cons.IH [OF this] eq show ?case
    by simp
qed

lemma foldl_winning_step_lookup0:
  "lookup0 (foldl winning_step t rs) p =
     lookup0 t p + (\<Sum>r\<leftarrow>rs. \<Sum>e\<leftarrow>r. if fst e = p \<and> snd e then 1 else 0)"
  by (induction rs arbitrary: t) (simp_all add: winning_step_lookup0 add.assoc)

lemma winning_copy_Nil: "foldl (\<lambda>m (k, v). flat_at k (\<lambda>_. v) m) acc [] = acc"
  by simp

lemma foldl_copy:
  "sorted_wrt (<) (map fst acc) \<Longrightarrow> distinct (map fst t) \<Longrightarrow>
   sorted_wrt (<) (map fst (foldl (\<lambda>m (k, v). flat_at k (\<lambda>_. v) m) acc t)) \<and>
   keys_of (foldl (\<lambda>m (k, v). flat_at k (\<lambda>_. v) m) acc t) = keys_of acc \<union> keys_of t \<and>
   (\<forall>p. lookup0 (foldl (\<lambda>m (k, v). flat_at k (\<lambda>_. v) m) acc t) p =
      (if p \<in> keys_of t then lookup0 t p else lookup0 acc p))"
proof (induction t arbitrary: acc)
  case Nil
  show ?case
    using Nil.prems by (simp add: keys_of_Nil)
next
  case (Cons e t)
  obtain k v where e: "e = (k, v)" by (cases e)
  from Cons.prems e have d: "distinct (map fst t)" and k: "k \<notin> keys_of t"
    by (simp_all add: keys_of_map_fst del: set_map)
  from Cons.prems have s: "sorted_wrt (<) (map fst (flat_at k (\<lambda>_. v) acc))"
    by (simp add: sorted_flat_at)
  note IH = Cons.IH [OF s d]
  have "foldl (\<lambda>m (k, v). flat_at k (\<lambda>_. v) m) acc (e # t) =
    foldl (\<lambda>m (k, v). flat_at k (\<lambda>_. v) m) (flat_at k (\<lambda>_. v) acc) t"
    by (simp add: e)
  moreover have "keys_of (flat_at k (\<lambda>_. v) acc) \<union> keys_of t = keys_of acc \<union> keys_of (e # t)"
    by (simp add: keys_of_flat_at keys_of_Cons e)
  moreover have "(if p \<in> keys_of t then lookup0 t p else lookup0 (flat_at k (\<lambda>_. v) acc) p) =
    (if p \<in> keys_of (e # t) then lookup0 (e # t) p else lookup0 acc p)" for p
    using k Cons.prems(1) by (auto simp add: e keys_of_Cons lookup0_Cons lookup0_flat_at)
  ultimately show ?case
    using IH by simp
qed

lemma winning_copy_conv:
  assumes d: "distinct (map fst t)" and keys: "keys_of t = set cbarray"
  shows "winning_copy t = map (\<lambda>sp. (sp, lookup0 t sp)) cbarray"
proof -
  have s: "sorted_wrt (<) (map fst ([] :: mymap3))"
    by simp
  note copy = foldl_copy [OF s d, folded winning_copy_def]
  from copy have "keys_of (winning_copy t) = keys_of t"
    by (simp add: keys_of_Nil)
  with keys have "set (map fst (winning_copy t)) = set cbarray"
    by (simp only: keys_of_map_fst)
  with sorted_cbarray copy have fst: "map fst (winning_copy t) = cbarray"
    by (blast intro: strict_sorted_equal)
  have "lookup0 (winning_copy t) p = lookup0 t p" for p
  proof -
    from copy have "lookup0 (winning_copy t) p =
      (if p \<in> keys_of t then lookup0 t p else lookup0 ([] :: mymap3) p)"
      by blast
    then show ?thesis
      by (simp add: lookup0_not_key keys_of_Nil)
  qed
  with flat_map_conv [OF fst distinct_cbarray] show ?thesis
    by simp
qed

lemma aggregateWinningAvg_conv:
  assumes len: "length rs = MCMAX" and keys: "\<forall>r\<in>set rs. map fst r = cbarray"
  shows "aggregateWinningAvg rs = Some (map (\<lambda>sp. (sp, of_nat (win_count sp rs))) cbarray)"
proof -
  let ?t = "foldl winning_step winning_init rs"
  have init_keys: "keys_of winning_init = set cbarray"
    by (simp add: winning_init_conv keys_of_map_fst comp_def)
  have "\<forall>r\<in>set rs. keys_of r \<subseteq> keys_of winning_init"
  proof
    fix r
    assume "r \<in> set rs"
    with keys have "map fst r = cbarray"
      by simp
    then have "keys_of r = set cbarray"
      by (simp only: keys_of_map_fst)
    then show "keys_of r \<subseteq> keys_of winning_init"
      by (simp only: init_keys subset_refl)
  qed
  then have t_keys: "keys_of ?t = set cbarray"
    by (simp add: foldl_winning_step_keys init_keys)
  have "distinct (map fst winning_init)"
    using distinct_cbarray by (simp add: winning_init_conv comp_def)
  then have t_distinct: "distinct (map fst ?t)"
    by (rule foldl_winning_step_distinct)
  have init_zero: "lookup0 winning_init p = 0" for p
    by (simp add: winning_init_conv lookup0_def map_of_map_restrict restrict_map_def)
  have val: "lookup0 ?t p = of_nat (win_count p rs)" for p
  proof -
    have "lookup0 ?t p = (\<Sum>r\<leftarrow>rs. \<Sum>e\<leftarrow>r. if fst e = p \<and> snd e then 1 else 0)"
      by (simp add: foldl_winning_step_lookup0 init_zero)
    also have "\<dots> = (\<Sum>r\<leftarrow>rs. if map_of r p = Some True then 1 else 0)"
    proof (rule arg_cong [where f = sum_list], rule map_cong [OF refl])
      fix r
      assume "r \<in> set rs"
      with keys distinct_cbarray have "distinct (map fst r)"
        by simp
      then show "(\<Sum>e\<leftarrow>r. if fst e = p \<and> snd e then 1 else 0) =
        (if map_of r p = Some True then 1 else 0 :: uint32)"
        by (rule sum_list_key_true)
    qed
    also have "\<dots> = of_nat (win_count p rs)"
      by (simp add: sum_list_indicator win_count_def)
    finally show ?thesis .
  qed
  from len have "foldl (\<lambda>trial i. winning_step trial (rs ! i)) winning_init [0..<MCMAX] = ?t"
    by (simp add: foldl_nth_take)
  with len show ?thesis
    by (simp add: aggregateWinningAvg_def winning_copy_conv [OF t_distinct t_keys] val)
qed

section \<open>The generated sequence\<close>

lemma fill_ud_conv:
  "fill_ud myrand cs mr =
     (map (\<lambda>r. if r > 3 then CHR ''U'' else CHR ''D'') (draws myrand (length cs) mr),
      ((snd \<circ> myrand) ^^ length cs) mr)"
  by (induction cs arbitrary: mr) (simp_all add: split_beta funpow_swap1)

lemma makerandomudstr_conv:
  "makerandomudstr myrand mr =
     (map (\<lambda>r. if r > 3 then CHR ''U'' else CHR ''D'') (draws myrand 100 mr),
      ((snd \<circ> myrand) ^^ 100) mr)"
  by (simp add: makerandomudstr_def fill_ud_conv RANDNUMTABLELEN_def)

lemma length_draws: "length (draws myrand n mr) = n"
  by (induction n arbitrary: mr) simp_all

lemma length_makerandomudstr: "length (fst (makerandomudstr myrand mr)) = 100"
  by (simp add: makerandomudstr_conv length_draws)

lemma draws_numeral:
  "draws myrand (numeral k) mr =
     fst (myrand mr) # draws myrand (pred_numeral k) (snd (myrand mr))"
  by (simp add: numeral_eq_Suc)

lemma length_sequences:
  "length cyclic_first = 100" "length cyclic_second = 100" "length late_UUD = 100"
  by (simp_all add: cyclic_first_def cyclic_second_def late_UUD_def)

lemma funpow_cyclic_die: "((snd \<circ> cyclic_die) ^^ n) mr = mr + n"
  by (induction n) (simp_all add: cyclic_die_def)

section \<open>The pattern locator: claims\<close>

lemma unat_of_nat_uint32: "n < 2 ^ 32 \<Longrightarrow> unat (of_nat n :: uint32) = n"
  by (simp add: unat_of_nat)

lemma myfind_found:
  assumes "lowest_start_index str udstr i"
  shows "myfind str udstr = of_nat (i + 3)"
  using assms by (simp add: myfind_def string_find_Some_iff [symmetric])

lemma myfind_not_found:
  assumes "\<not> sublist str udstr"
  shows "myfind str udstr = RANDNUMTABLELEN"
  using assms by (simp add: myfind_def string_find_None_iff [symmetric])

lemma myfind_found_unat:
  assumes "str \<in> set udarray" and "length udstr < 2 ^ 32"
    and "lowest_start_index str udstr i"
  shows "unat (myfind str udstr) = i + 3"
proof -
  from assms(3) have "i + length str \<le> length udstr"
    by (simp add: lowest_start_index_def occurs_at_def)
  with assms(1,2) have "i + 3 < 2 ^ 32"
    by (simp add: length_udarray)
  then have "unat (of_nat (i + 3) :: uint32) = i + 3"
    by (rule unat_of_nat_uint32)
  with assms(3) show ?thesis
    by (simp add: myfind_found)
qed

lemma lowest_start_index_exists:
  assumes "sublist str udstr"
  shows "\<exists>i. lowest_start_index str udstr i"
proof -
  from assms have "string_find udstr str \<noteq> None"
    by (simp add: string_find_None_iff)
  then obtain i where "string_find udstr str = Some i"
    by blast
  then show ?thesis
    by (auto simp add: string_find_Some_iff)
qed

lemma lowest_start_index_unique:
  "lowest_start_index str udstr i \<Longrightarrow> lowest_start_index str udstr j \<Longrightarrow> i = j"
  by (simp add: string_find_Some_iff [symmetric])

text \<open>
  \<^bold>\<open>C5\<close>. For each of the eight patterns and every sequence (of a length below \<open>2^32\<close>, in
  particular of length 100) in which the pattern occurs as a contiguous substring with
  lowest 0-based start index \<open>i\<close>, \<open>myfind\<close> returns \<open>i + length pattern\<close>, the number
  of symbols consumed until the pattern was complete.
\<close>

theorem myfind_end_position:
  assumes "str \<in> set udarray" and "length udstr < 2 ^ 32"
    and "lowest_start_index str udstr i"
  shows "unat (myfind str udstr) = i + length str"
  using assms by (simp add: myfind_found_unat length_udarray)

theorem myfind_end_position_witness:
  "''DDU'' \<in> set udarray \<and> length ''UDUDDUU'' < (2::nat) ^ 32 \<and>
   lowest_start_index ''DDU'' ''UDUDDUU'' 3 \<and> unat (myfind ''DDU'' ''UDUDDUU'') = 3 + 3"
proof -
  have p: "''DDU'' \<in> set udarray"
    by (simp add: udarray_def)
  have l: "length ''UDUDDUU'' < (2::nat) ^ 32"
    by simp
  have "string_find ''UDUDDUU'' ''DDU'' = Some 3"
    by simp
  then have i: "lowest_start_index ''DDU'' ''UDUDDUU'' 3"
    by (simp only: string_find_Some_iff)
  from myfind_end_position [OF p l i] p l i show ?thesis
    by simp
qed

text \<open>
  \<^bold>\<open>C2\<close>, as stated, fails: in the sequence of 99 \<open>U\<close> followed by one \<open>D\<close> the pattern
  \<open>UUD\<close> occurs (as the last three symbols), and \<open>myfind\<close> returns \<open>97 + 3 = 100\<close>, which
  is the sentinel \<open>RANDNUMTABLELEN\<close>.
\<close>

theorem myfind_sentinel_counterexample:
  "length late_UUD = unat RANDNUMTABLELEN \<and>
   ''UUD'' \<in> set udarray \<and>
   sublist ''UUD'' late_UUD \<and>
   myfind ''UUD'' late_UUD = RANDNUMTABLELEN"
proof -
  have "string_find late_UUD ''UUD'' = Some 97"
    by (simp add: late_UUD_def)
  then have "sublist ''UUD'' late_UUD"
    and "myfind ''UUD'' late_UUD = RANDNUMTABLELEN"
    using string_find_None_iff [of late_UUD "''UUD''"]
    by (simp_all add: myfind_def RANDNUMTABLELEN_def late_UUD_def)
  then show ?thesis
    by (simp add: udarray_def RANDNUMTABLELEN_def length_sequences)
qed

text \<open>
  \<^bold>\<open>C2\<close>, amended. For every sequence of length 100 and each of the eight patterns, the
  result of \<open>myfind\<close> lies between the length of the pattern and the length of the
  sequence, which is the sentinel; it is the sentinel whenever the pattern is not a
  contiguous substring of the sequence, and when it is the sentinel then either the
  pattern is not a substring or its first occurrence is the last three symbols of the
  sequence.
\<close>

theorem myfind_range:
  assumes "str \<in> set udarray" and "length udstr = unat RANDNUMTABLELEN"
  shows "length str \<le> unat (myfind str udstr) \<and>
    unat (myfind str udstr) \<le> length udstr \<and>
    unat RANDNUMTABLELEN = length udstr \<and>
    (\<not> sublist str udstr \<longrightarrow> myfind str udstr = RANDNUMTABLELEN) \<and>
    (myfind str udstr = RANDNUMTABLELEN \<longleftrightarrow>
       \<not> sublist str udstr \<or> lowest_start_index str udstr (length udstr - length str))"
proof (cases "sublist str udstr")
  case False
  with assms show ?thesis
    by (simp add: myfind_not_found length_udarray RANDNUMTABLELEN_def)
next
  case True
  then obtain i where i: "lowest_start_index str udstr i"
    using lowest_start_index_exists by blast
  from assms have len: "length udstr = 100" "length str = 3"
    by (simp_all add: RANDNUMTABLELEN_def length_udarray)
  then have "length udstr < 2 ^ 32"
    by simp
  from assms(1) this i have val: "unat (myfind str udstr) = i + 3"
    by (rule myfind_found_unat)
  from i len have bound: "i + 3 \<le> 100"
    by (simp add: lowest_start_index_def occurs_at_def)
  have "myfind str udstr = 100 \<longleftrightarrow> unat (myfind str udstr) = unat (100 :: uint32)"
    by (simp only: word_unat_eq_iff)
  also from val have "\<dots> \<longleftrightarrow> i = 97"
    by auto
  also from i have "\<dots> \<longleftrightarrow> lowest_start_index str udstr 97"
    using lowest_start_index_unique by blast
  finally have "myfind str udstr = RANDNUMTABLELEN \<longleftrightarrow>
    lowest_start_index str udstr (length udstr - length str)"
    by (simp add: RANDNUMTABLELEN_def len)
  with True val bound len assms(2) show ?thesis
    by simp
qed

theorem myfind_range_witness:
  "''DUD'' \<in> set udarray \<and>
   length cyclic_first = unat RANDNUMTABLELEN \<and>
   \<not> sublist ''DUD'' cyclic_first \<and>
   3 \<le> unat (myfind ''DUD'' cyclic_first) \<and>
   unat (myfind ''DUD'' cyclic_first) \<le> 100 \<and>
   myfind ''DUD'' cyclic_first = RANDNUMTABLELEN"
proof -
  have p: "''DUD'' \<in> set udarray"
    by (simp add: udarray_def)
  have l: "length cyclic_first = unat RANDNUMTABLELEN"
    by (simp add: RANDNUMTABLELEN_def length_sequences)
  have "string_find cyclic_first ''DUD'' = None"
    by (simp add: cyclic_first_def)
  then have n: "\<not> sublist ''DUD'' cyclic_first"
    using string_find_None_iff by blast
  from myfind_range [OF p l] p l n show ?thesis
    by (simp add: RANDNUMTABLELEN_def)
qed

text \<open>
  The sentinel is the constant \<open>RANDNUMTABLELEN\<close>, also for a sequence of another length.
\<close>

lemma myfind_short_sequence: "myfind ''DDU'' ''UUU'' = 100"
  by (simp add: myfind_def RANDNUMTABLELEN_def)

text \<open>
  Two distinct patterns are at equal positions in a sequence of length 100 exactly when
  both are absent, or one is absent and the first occurrence of the other is the last
  three symbols.
\<close>

lemma myfind_tie_iff:
  assumes A: "A \<in> set udarray" and B: "B \<in> set udarray" and AB: "A \<noteq> B"
    and len: "length u = unat RANDNUMTABLELEN"
  shows "myfind A u = myfind B u \<longleftrightarrow>
    (\<not> sublist A u \<and> \<not> sublist B u) \<or>
    (\<not> sublist A u \<and> lowest_start_index B u 97) \<or>
    (lowest_start_index A u 97 \<and> \<not> sublist B u)"
proof -
  from len have l: "length u < 2 ^ 32" and l100: "length u = 100"
    by (simp_all add: RANDNUMTABLELEN_def)
  have eq: "myfind A u = myfind B u \<longleftrightarrow> unat (myfind A u) = unat (myfind B u)"
    by (simp only: word_unat_eq_iff)
  have absent: "unat (myfind P u) = 100" if "\<not> sublist P u" for P
    using that by (simp add: myfind_not_found RANDNUMTABLELEN_def)
  have last: "lowest_start_index P u 97 \<longleftrightarrow> i = 97" if "lowest_start_index P u i" for P i
    using that lowest_start_index_unique by blast
  consider (none) "\<not> sublist A u" "\<not> sublist B u"
    | (onlyB) j where "\<not> sublist A u" "lowest_start_index B u j"
    | (onlyA) i where "lowest_start_index A u i" "\<not> sublist B u"
    | (both) i j where "lowest_start_index A u i" "lowest_start_index B u j"
    using lowest_start_index_exists by blast
  then show ?thesis
  proof cases
    case none
    then show ?thesis
      by (simp add: eq absent)
  next
    case onlyB
    from B l onlyB(2) have "unat (myfind B u) = j + 3"
      by (rule myfind_found_unat)
    moreover from onlyB(2) have "sublist B u"
      by (auto simp add: sublist_iff_occurs_at lowest_start_index_def)
    ultimately show ?thesis
      using onlyB last [OF onlyB(2)] by (auto simp add: eq absent)
  next
    case onlyA
    from A l onlyA(1) have "unat (myfind A u) = i + 3"
      by (rule myfind_found_unat)
    moreover from onlyA(1) have "sublist A u"
      by (auto simp add: sublist_iff_occurs_at lowest_start_index_def)
    ultimately show ?thesis
      using onlyA last [OF onlyA(1)] by (auto simp add: eq absent)
  next
    case both
    from A l both(1) have a: "unat (myfind A u) = i + 3"
      by (rule myfind_found_unat)
    from B l both(2) have b: "unat (myfind B u) = j + 3"
      by (rule myfind_found_unat)
    from both have sub: "sublist A u" "sublist B u"
      by (auto simp add: sublist_iff_occurs_at lowest_start_index_def)
    have "i \<noteq> j"
    proof
      assume "i = j"
      with both have "take (length A) (drop i u) = A" and "take (length B) (drop i u) = B"
        by (simp_all add: lowest_start_index_def occurs_at_def)
      with A B have "A = B"
        by (simp add: length_udarray)
      with AB show False ..
    qed
    with a b sub show ?thesis
      by (simp add: eq)
  qed
qed

section \<open>One trial: claims\<close>

lemma map_of_winning_loop:
  "(A, B) \<in> set cbarray \<Longrightarrow>
   map_of (winning_loop udstr) (A, B) = Some (myfind A udstr < myfind B udstr)"
  by (simp add: winning_loop_conv map_of_map_restrict)

lemma map_of_avg_loop:
  "str \<in> set udarray \<Longrightarrow> map_of (avg_loop udstr) str = Some (myfind str udstr)"
  by (simp add: avg_loop_conv map_of_map_restrict)

lemma montecarloTBB_body_conv:
  "montecarloTBB_body myrand mr =
     (avg_loop (fst (makerandomudstr myrand mr)),
      winning_loop (fst (makerandomudstr myrand (snd (makerandomudstr myrand mr)))))"
  by (simp add: montecarloTBB_body_def montecarloImplAvg_def montecarloImplWinningAvg_def
      split_beta)

lemma cyclic_die_first:
  "fst (makerandomudstr cyclic_die 0) = cyclic_first"
  by (simp add: makerandomudstr_conv draws_numeral cyclic_die_def cyclic_first_def)

lemma cyclic_die_advanced: "snd (makerandomudstr cyclic_die 0) = 100"
  by (simp add: makerandomudstr_conv funpow_cyclic_die)

lemma cyclic_die_second:
  "fst (makerandomudstr cyclic_die 100) = cyclic_second"
  by (simp add: makerandomudstr_conv draws_numeral cyclic_die_def cyclic_second_def)

text \<open>
  \<^bold>\<open>C7\<close>. For every random source and every state of it, \<open>makerandomudstr\<close> returns a
  string of exactly 100 symbols, each \<open>U\<close> or \<open>D\<close>: the \<open>i\<close>-th symbol is \<open>U\<close> when the
  \<open>i\<close>-th draw is greater than 3 and \<open>D\<close> otherwise. The string is a function of the
  state alone, and the only effect is that the state has been advanced by 100 draws.
\<close>

theorem makerandomudstr_sequence:
  "length (fst (makerandomudstr myrand mr)) = unat RANDNUMTABLELEN \<and>
   unat RANDNUMTABLELEN = 100 \<and>
   set (fst (makerandomudstr myrand mr)) \<subseteq> {CHR ''U'', CHR ''D''} \<and>
   fst (makerandomudstr myrand mr) =
     map (\<lambda>r. if r > 3 then CHR ''U'' else CHR ''D'') (draws myrand 100 mr) \<and>
   snd (makerandomudstr myrand mr) = ((snd \<circ> myrand) ^^ 100) mr"
  by (auto simp add: makerandomudstr_conv length_draws RANDNUMTABLELEN_def)

theorem makerandomudstr_sequence_witness:
  "makerandomudstr cyclic_die 0 =
     (cyclic_first, 100)"
  using makerandomudstr_sequence [of cyclic_die 0]
  by (simp add: prod_eq_iff cyclic_die_first cyclic_die_advanced)

text \<open>
  \<^bold>\<open>C9\<close>. \<open>cbarray\<close>, the result of \<open>makecombination\<close>, has exactly 56 entries, no entry
  twice, and its entries are exactly the ordered pairs of two distinct patterns of the
  eight of \<open>udarray\<close>.
\<close>

theorem cbarray_pairs:
  "length udarray = 8 \<and> distinct udarray \<and> length cbarray = 56 \<and> distinct cbarray \<and>
   set cbarray = {(a, b). a \<in> set udarray \<and> b \<in> set udarray \<and> a \<noteq> b}"
  using length_cbarray distinct_cbarray set_cbarray distinct_udarray
  by (simp add: udarray_def)

text \<open>
  \<^bold>\<open>C3\<close>. For every sequence and every ordered pair of distinct patterns \<open>(A, B)\<close>, the
  win pass records for \<open>(A, B)\<close> whether the position of \<open>A\<close> is strictly less than
  the position of \<open>B\<close>, both as \<open>myfind\<close> returns them; equal positions, and so both
  patterns absent, record false; the records of \<open>(A, B)\<close> and \<open>(B, A)\<close> are never both
  true. \<open>montecarloImplWinningAvg\<close> returns this record for the sequence it draws.
\<close>

theorem winning_loop_strict:
  assumes "A \<in> set udarray" and "B \<in> set udarray" and "A \<noteq> B"
  shows "map_of (winning_loop udstr) (A, B) = Some (myfind A udstr < myfind B udstr) \<and>
    (myfind A udstr = myfind B udstr \<longrightarrow> map_of (winning_loop udstr) (A, B) = Some False) \<and>
    (\<not> sublist A udstr \<and> \<not> sublist B udstr \<longrightarrow>
       map_of (winning_loop udstr) (A, B) = Some False) \<and>
    \<not> (map_of (winning_loop udstr) (A, B) = Some True \<and>
       map_of (winning_loop udstr) (B, A) = Some True) \<and>
    map fst (winning_loop udstr) = cbarray \<and>
    fst (montecarloImplWinningAvg myrand mr) = winning_loop (fst (makerandomudstr myrand mr))"
proof -
  from assms have "(A, B) \<in> set cbarray" and "(B, A) \<in> set cbarray"
    by (simp_all add: set_cbarray)
  then have "map_of (winning_loop udstr) (A, B) = Some (myfind A udstr < myfind B udstr)"
    and "map_of (winning_loop udstr) (B, A) = Some (myfind B udstr < myfind A udstr)"
    by (simp_all add: map_of_winning_loop)
  moreover have "map fst (winning_loop udstr) = cbarray"
    by (simp add: winning_loop_conv comp_def)
  moreover have "fst (montecarloImplWinningAvg myrand mr) =
    winning_loop (fst (makerandomudstr myrand mr))"
    by (simp add: montecarloImplWinningAvg_def split_beta)
  ultimately show ?thesis
    by (auto simp add: myfind_not_found)
qed

theorem winning_loop_strict_witness:
  "''DDD'' \<in> set udarray \<and> ''UUD'' \<in> set udarray \<and> ''DDD'' \<noteq> ''UUD'' \<and>
   map_of (winning_loop cyclic_first) (''DDD'', ''UUD'') = Some True \<and>
   map_of (winning_loop cyclic_first) (''UUD'', ''DDD'') \<noteq> Some True"
proof -
  have A: "''DDD'' \<in> set udarray" and B: "''UUD'' \<in> set udarray" and AB: "''DDD'' \<noteq> ''UUD''"
    by (simp_all add: udarray_def)
  have "myfind ''DDD'' cyclic_first = 3"
    and "myfind ''UUD'' cyclic_first = 7"
    by (simp_all add: myfind_def cyclic_first_def)
  with winning_loop_strict [OF A B AB, where myrand = cyclic_die and mr = 0
      and udstr = cyclic_first] A B
  show ?thesis
    by simp
qed

text \<open>
  \<^bold>\<open>C1\<close>, as stated, fails: \<open>montecarloImplAvg\<close> and \<open>montecarloImplWinningAvg\<close> each call
  \<open>makerandomudstr\<close>. With the die that cycles through \<open>1, \<dots>, 6\<close> the expectation pass
  sees \<open>DDDUUUDDD\<dots>\<close> and records 3 for \<open>DDD\<close> and 7 for \<open>UUD\<close>; the win pass sees
  \<open>UUDDDUUU\<dots>\<close> and records false for the pair \<open>(DDD, UUD)\<close>, although \<open>3 < 7\<close>.
\<close>

theorem montecarloTBB_body_counterexample:
  "(''DDD'', ''UUD'') \<in> set cbarray \<and>
   map_of (fst (montecarloTBB_body cyclic_die 0)) ''DDD'' = Some 3 \<and>
   map_of (fst (montecarloTBB_body cyclic_die 0)) ''UUD'' = Some 7 \<and>
   map_of (snd (montecarloTBB_body cyclic_die 0)) (''DDD'', ''UUD'') = Some False \<and>
   map_of (snd (montecarloTBB_body cyclic_die 0)) (''DDD'', ''UUD'') \<noteq>
     Some (the (map_of (fst (montecarloTBB_body cyclic_die 0)) ''DDD'')
       < the (map_of (fst (montecarloTBB_body cyclic_die 0)) ''UUD''))"
proof -
  have p: "''DDD'' \<in> set udarray" "''UUD'' \<in> set udarray"
    by (simp_all add: udarray_def)
  then have c: "(''DDD'', ''UUD'') \<in> set cbarray"
    by (simp add: set_cbarray)
  have "myfind ''DDD'' cyclic_first = 3"
    and "myfind ''UUD'' cyclic_first = 7"
    and "myfind ''DDD'' cyclic_second = 5"
    and "myfind ''UUD'' cyclic_second = 3"
    by (simp_all add: myfind_def cyclic_first_def cyclic_second_def)
  with p c show ?thesis
    by (simp add: montecarloTBB_body_conv map_of_avg_loop map_of_winning_loop
        cyclic_die_first cyclic_die_advanced cyclic_die_second)
qed

text \<open>
  \<^bold>\<open>C1\<close>, amended. Within one trial each pass draws its own sequence from the trial's
  random source, the win pass after the expectation pass. For every ordered pair of
  distinct patterns \<open>(A, B)\<close>, the expectation result records the positions of \<open>A\<close> and
  \<open>B\<close> in the first sequence, and the win result records whether the position of \<open>A\<close>
  is strictly less than the position of \<open>B\<close> in the second sequence; the recorded
  outcome is the comparison of the two recorded positions whenever the two sequences
  are equal.
\<close>

theorem montecarloTBB_body_passes:
  assumes "A \<in> set udarray" and "B \<in> set udarray" and "A \<noteq> B"
  shows "map_of (fst (montecarloTBB_body myrand mr)) A =
      Some (myfind A (fst (makerandomudstr myrand mr))) \<and>
    map_of (fst (montecarloTBB_body myrand mr)) B =
      Some (myfind B (fst (makerandomudstr myrand mr))) \<and>
    map_of (snd (montecarloTBB_body myrand mr)) (A, B) =
      Some (myfind A (fst (makerandomudstr myrand (snd (makerandomudstr myrand mr))))
        < myfind B (fst (makerandomudstr myrand (snd (makerandomudstr myrand mr))))) \<and>
    (fst (makerandomudstr myrand (snd (makerandomudstr myrand mr))) =
       fst (makerandomudstr myrand mr) \<longrightarrow>
     map_of (snd (montecarloTBB_body myrand mr)) (A, B) =
       Some (the (map_of (fst (montecarloTBB_body myrand mr)) A)
         < the (map_of (fst (montecarloTBB_body myrand mr)) B)))"
proof -
  from assms have "(A, B) \<in> set cbarray"
    by (simp add: set_cbarray)
  with assms(1,2) show ?thesis
    by (simp add: montecarloTBB_body_conv map_of_avg_loop map_of_winning_loop)
qed

theorem montecarloTBB_body_passes_witness:
  "''UDD'' \<in> set udarray \<and> ''DUU'' \<in> set udarray \<and> ''UDD'' \<noteq> ''DUU'' \<and>
   fst (makerandomudstr cyclic_die (snd (makerandomudstr cyclic_die 0))) =
     cyclic_second \<and>
   map_of (fst (montecarloTBB_body cyclic_die 0)) ''UDD'' = Some 8 \<and>
   map_of (fst (montecarloTBB_body cyclic_die 0)) ''DUU'' = Some 5 \<and>
   map_of (snd (montecarloTBB_body cyclic_die 0)) (''UDD'', ''DUU'') = Some True"
proof -
  have A: "''UDD'' \<in> set udarray" and B: "''DUU'' \<in> set udarray" and AB: "''UDD'' \<noteq> ''DUU''"
    by (simp_all add: udarray_def)
  have "myfind ''UDD'' cyclic_first = 8"
    and "myfind ''DUU'' cyclic_first = 5"
    and "myfind ''UDD'' cyclic_second = 4"
    and "myfind ''DUU'' cyclic_second = 7"
    by (simp_all add: myfind_def cyclic_first_def cyclic_second_def)
  with montecarloTBB_body_passes [OF A B AB, of cyclic_die 0] A B show ?thesis
    by (simp add: cyclic_die_first cyclic_die_advanced cyclic_die_second)
qed

section \<open>The order of the concurrent updates\<close>

lemma winning_step_increments:
  "winning_step t mcr = foldl (\<lambda>trial k. hash_at k (\<lambda>x. x + 1) trial) t (map fst (filter snd mcr))"
proof (induction mcr arbitrary: t)
  case Nil
  show ?case by (simp add: winning_step_Nil)
next
  case (Cons e mcr)
  obtain k b where e: "e = (k, b)" by (cases e)
  show ?case
    unfolding e winning_step_Cons Cons.IH by simp
qed

lemma foldl_winning_step_increments:
  "foldl winning_step t rs = foldl (\<lambda>trial k. hash_at k (\<lambda>x. x + 1) trial) t (increments rs)"
  by (induction rs arbitrary: t) (simp_all add: increments_def winning_step_increments)

lemma foldl_increment_keys:
  "keys_of (foldl (\<lambda>trial k. hash_at k (\<lambda>x. x + 1) trial) t sched) = keys_of t \<union> set sched"
  by (induction sched arbitrary: t) (simp_all add: keys_of_hash_at)

lemma foldl_increment_distinct:
  "distinct (map fst t) \<Longrightarrow>
   distinct (map fst (foldl (\<lambda>trial k. hash_at k (\<lambda>x. x + 1) trial) t sched))"
  by (induction sched arbitrary: t) (simp_all add: distinct_hash_at)

lemma foldl_increment_lookup0:
  "lookup0 (foldl (\<lambda>trial k. hash_at k (\<lambda>x. x + 1) trial) t sched) p =
     lookup0 t p + of_nat (count (mset sched) p)"
  by (induction sched arbitrary: t) (simp_all add: lookup0_hash_at)

lemma aggregateWinningAvg_schedule:
  assumes len: "length rs = MCMAX" and keys: "\<forall>r\<in>set rs. trial_win_result r"
    and sched: "mset sched = mset (increments rs)"
  shows "aggregateWinningAvg rs =
    Some (winning_copy (foldl (\<lambda>trial k. hash_at k (\<lambda>x. x + 1) trial) winning_init sched))"
proof -
  let ?run = "\<lambda>sched. foldl (\<lambda>trial k. hash_at k (\<lambda>x. x + 1) trial) winning_init sched"
  have init_keys: "keys_of winning_init = set cbarray"
    by (simp add: winning_init_conv keys_of_map_fst comp_def)
  have init_distinct: "distinct (map fst winning_init)"
    using distinct_cbarray by (simp add: winning_init_conv comp_def)
  have "set (increments rs) \<subseteq> set cbarray"
  proof
    fix k
    assume "k \<in> set (increments rs)"
    then obtain r where r: "r \<in> set rs" and "k \<in> set (map fst (filter snd r))"
      by (auto simp add: increments_def)
    then have "k \<in> set (map fst r)"
      by auto
    with keys r show "k \<in> set cbarray"
      by (simp add: trial_win_result_def del: set_map)
  qed
  moreover from sched have set_eq: "set sched = set (increments rs)"
    by (rule mset_eq_setD)
  ultimately have k: "keys_of (?run sched) = set cbarray"
    and k': "keys_of (?run (increments rs)) = set cbarray"
    by (auto simp add: foldl_increment_keys init_keys)
  have d: "distinct (map fst (?run sched))" and d': "distinct (map fst (?run (increments rs)))"
    using init_distinct by (rule foldl_increment_distinct)+
  have "lookup0 (?run sched) p = lookup0 (?run (increments rs)) p" for p
    by (simp add: foldl_increment_lookup0 sched)
  then have "winning_copy (?run sched) = winning_copy (?run (increments rs))"
    by (simp add: winning_copy_conv [OF d k] winning_copy_conv [OF d' k'])
  moreover from len
  have "aggregateWinningAvg rs = Some (winning_copy (?run (increments rs)))"
    by (simp add: aggregateWinningAvg_def foldl_nth_take foldl_winning_step_increments)
  ultimately show ?thesis
    by simp
qed

text \<open>A longer vector is read up to the index \<open>MCMAX - 1\<close> only.\<close>

lemma aggregateWinningAvg_take:
  "MCMAX \<le> length rs \<Longrightarrow> aggregateWinningAvg rs = aggregateWinningAvg (take MCMAX rs)"
  by (simp add: aggregateWinningAvg_def foldl_nth_take)

text \<open>
  The result vectors of \<open>montecarloTBB\<close> are filled concurrently, in no fixed order; the
  sums do not depend on it.
\<close>

lemma sumMontecarloAvg_order:
  assumes "\<forall>r\<in>set rs. trial_expectation_result r" and "mset rs' = mset rs"
  shows "sumMontecarloAvg rs' = sumMontecarloAvg rs"
proof -
  from assms(2) have "set rs' = set rs"
    by (rule mset_eq_setD)
  with assms(1) have "\<forall>r\<in>set rs. map fst r = udarray" and "\<forall>r\<in>set rs'. map fst r = udarray"
    by (simp_all add: trial_expectation_result_def)
  moreover have "(\<Sum>r\<leftarrow>rs'. lookup0 r str) = (\<Sum>r\<leftarrow>rs. lookup0 r str)" for str :: string
    using assms(2) by (metis mset_map sum_mset_sum_list)
  ultimately show ?thesis
    by (simp add: sumMontecarloAvg_conv)
qed

section \<open>Batches of trial results\<close>

lemma sum_list_bounded:
  "\<forall>x\<in>set xs. f x \<le> (c::nat) \<Longrightarrow> (\<Sum>x\<leftarrow>xs. f x) \<le> length xs * c"
  by (induction xs) auto

lemma length_filter_eq_length: "length (filter P xs) = length xs \<longleftrightarrow> (\<forall>x\<in>set xs. P x)"
proof (induction xs)
  case Nil
  show ?case by simp
next
  case (Cons x xs)
  have "length (filter P xs) \<le> length xs"
    by (rule length_filter_le)
  then have "length (filter P xs) \<noteq> Suc (length xs)"
    by linarith
  with Cons show ?case
    by simp
qed

lemma length_filter_disjoint:
  "\<forall>x\<in>set xs. \<not> (P x \<and> Q x) \<Longrightarrow>
   length (filter P xs) + length (filter Q xs) = length (filter (\<lambda>x. P x \<or> Q x) xs)"
  by (induction xs) auto

lemma lookup0_bounded:
  assumes "trial_expectation_result r" and "str \<in> set udarray"
  shows "map_of r str = Some (lookup0 r str)" and "unat (lookup0 r str) \<le> 100"
proof -
  from assms have "str \<in> fst ` set r"
    by (simp add: trial_expectation_result_def flip: set_map)
  then obtain v where v: "map_of r str = Some v"
    by (meson domD domI map_of_eq_None_iff not_None_eq)
  then show "map_of r str = Some (lookup0 r str)"
    by (simp add: lookup0_def)
  from v have "v \<in> set (map snd r)"
    by (force dest: map_of_SomeD)
  with assms(1) have "v \<le> RANDNUMTABLELEN"
    by (simp add: trial_expectation_result_def list_all_iff del: set_map)
  then have "unat v \<le> unat RANDNUMTABLELEN"
    by (simp add: word_le_nat_alt)
  with v show "unat (lookup0 r str) \<le> 100"
    by (simp add: lookup0_def RANDNUMTABLELEN_def)
qed

lemma win_count_le: "win_count sp rs \<le> length rs"
  by (simp add: win_count_def)

lemma win_count_winning_loop:
  "(A, B) \<in> set cbarray \<Longrightarrow>
   win_count (A, B) (map winning_loop us) = length (filter (\<lambda>u. myfind A u < myfind B u) us)"
  by (simp add: win_count_def length_filter_map comp_def map_of_winning_loop)

lemma trial_win_result_winning_loop: "trial_win_result (winning_loop udstr)"
  by (simp add: trial_win_result_def winning_loop_conv comp_def)

lemma myfind_le:
  assumes "str \<in> set udarray" and "length udstr = unat RANDNUMTABLELEN"
  shows "unat (myfind str udstr) \<le> 100"
proof (cases "sublist str udstr")
  case False
  then show ?thesis
    by (simp add: myfind_not_found RANDNUMTABLELEN_def)
next
  case True
  then obtain i where i: "lowest_start_index str udstr i"
    using lowest_start_index_exists by blast
  from assms have len: "length udstr = 100" "length str = 3"
    by (simp_all add: RANDNUMTABLELEN_def length_udarray)
  from i len have "i + 3 \<le> 100"
    by (simp add: lowest_start_index_def occurs_at_def)
  then have "unat (of_nat (i + 3) :: uint32) \<le> 100"
    using unat_of_nat_uint32 [of "i + 3"] by simp
  with i show ?thesis
    by (simp only: myfind_found)
qed

lemma trial_expectation_result_avg_loop:
  assumes "length udstr = unat RANDNUMTABLELEN"
  shows "trial_expectation_result (avg_loop udstr)"
proof -
  have "myfind str udstr \<le> RANDNUMTABLELEN" if "str \<in> set udarray" for str
    using myfind_le [OF that assms] by (simp add: word_le_nat_alt RANDNUMTABLELEN_def)
  then show ?thesis
    by (simp add: trial_expectation_result_def avg_loop_conv comp_def list_all_iff)
qed

text \<open>What the two passes return are trial results in this sense.\<close>

lemma montecarloImplAvg_result:
  "fst (montecarloImplAvg myrand mr) = avg_loop (fst (makerandomudstr myrand mr))"
  "trial_expectation_result (fst (montecarloImplAvg myrand mr))"
  by (simp_all add: montecarloImplAvg_def split_beta trial_expectation_result_avg_loop
      length_makerandomudstr RANDNUMTABLELEN_def)

lemma montecarloImplWinningAvg_result:
  "fst (montecarloImplWinningAvg myrand mr) = winning_loop (fst (makerandomudstr myrand mr))"
  "trial_win_result (fst (montecarloImplWinningAvg myrand mr))"
  by (simp_all add: montecarloImplWinningAvg_def split_beta trial_win_result_winning_loop)

lemma lookup0_avg_loop:
  "str \<in> set udarray \<Longrightarrow> lookup0 (avg_loop udstr) str = myfind str udstr"
  by (simp add: lookup0_def map_of_avg_loop)

lemma MCMAX_bound: "MCMAX < 2 ^ 32" "0 < MCMAX"
  by (simp_all add: MCMAX_def)

lemma aggregateWinningAvg_lookup:
  assumes "length rs = MCMAX" and "\<forall>r\<in>set rs. trial_win_result r" and "sp \<in> set cbarray"
  shows "\<exists>m c. aggregateWinningAvg rs = Some m \<and> map fst m = cbarray \<and>
    map_of m sp = Some c \<and> unat c = win_count sp rs"
proof -
  from assms(2) have "\<forall>r\<in>set rs. map fst r = cbarray"
    by (simp add: trial_win_result_def)
  with assms(1)
  have agg: "aggregateWinningAvg rs = Some (map (\<lambda>sp. (sp, of_nat (win_count sp rs))) cbarray)"
    by (rule aggregateWinningAvg_conv)
  have "win_count sp rs \<le> MCMAX"
    using win_count_le [of sp rs] assms(1) by simp
  then have "win_count sp rs < 2 ^ 32"
    using MCMAX_bound(1) by (rule le_less_trans)
  then have "unat (of_nat (win_count sp rs) :: uint32) = win_count sp rs"
    by (rule unat_of_nat_uint32)
  with agg assms(3) show ?thesis
    by (simp add: map_of_map_restrict comp_def)
qed

text \<open>
  \<^bold>\<open>C4\<close>. The first loop of \<open>aggregateWinningAvg\<close> leaves a table that holds exactly the
  56 pairs, each with the count zero; the increments are applied to this table, and in
  whatever order they are applied, the function returns the same map. For every
  collection of \<open>MCMAX\<close> Trial Win Results this map has exactly the 56 pairs as keys,
  and its value for each pair is the number of trial results in which the outcome
  recorded for the pair is true.
\<close>

theorem aggregateWinningAvg_counts:
  assumes "length rs = MCMAX" and "\<forall>r\<in>set rs. trial_win_result r"
  shows "winning_init = map (\<lambda>sp. (sp, 0)) cbarray \<and>
    (\<forall>sched. mset sched = mset (increments rs) \<longrightarrow>
       aggregateWinningAvg rs =
         Some (winning_copy
           (foldl (\<lambda>trial k. hash_at k (\<lambda>x. x + 1) trial) winning_init sched))) \<and>
    (\<exists>m. aggregateWinningAvg rs = Some m \<and> map fst m = cbarray \<and> length m = 56 \<and>
       (\<forall>sp\<in>set cbarray. \<exists>c. map_of m sp = Some c \<and> unat c = win_count sp rs))"
proof (intro conjI)
  show "winning_init = map (\<lambda>sp. (sp, 0)) cbarray"
    by (rule winning_init_conv)
  show "\<forall>sched. mset sched = mset (increments rs) \<longrightarrow>
    aggregateWinningAvg rs =
      Some (winning_copy
        (foldl (\<lambda>trial k. hash_at k (\<lambda>x. x + 1) trial) winning_init sched))"
    using aggregateWinningAvg_schedule [OF assms] by blast
  from assms(2) have "\<forall>r\<in>set rs. map fst r = cbarray"
    by (simp add: trial_win_result_def)
  with assms(1)
  have agg: "aggregateWinningAvg rs = Some (map (\<lambda>sp. (sp, of_nat (win_count sp rs))) cbarray)"
    by (rule aggregateWinningAvg_conv)
  have "\<exists>c. map_of (map (\<lambda>sp. (sp, of_nat (win_count sp rs) :: uint32)) cbarray) sp = Some c \<and>
    unat c = win_count sp rs" if "sp \<in> set cbarray" for sp
    using aggregateWinningAvg_lookup [OF assms that] agg by auto
  with agg show "\<exists>m. aggregateWinningAvg rs = Some m \<and> map fst m = cbarray \<and> length m = 56 \<and>
    (\<forall>sp\<in>set cbarray. \<exists>c. map_of m sp = Some c \<and> unat c = win_count sp rs)"
    by (simp add: comp_def length_cbarray)
qed

theorem aggregateWinningAvg_counts_witness:
  "length (replicate MCMAX (winning_loop cyclic_first)) = MCMAX \<and>
   trial_win_result (winning_loop cyclic_first) \<and>
   (''DDD'', ''UUD'') \<in> set cbarray \<and>
   (\<exists>m c. aggregateWinningAvg (replicate MCMAX (winning_loop cyclic_first)) = Some m \<and>
      map_of m (''DDD'', ''UUD'') = Some c \<and> unat c = 1000000)"
proof -
  let ?r = "winning_loop cyclic_first"
  have l: "length (replicate MCMAX ?r) = MCMAX"
    by simp
  have r: "trial_win_result ?r"
    by (rule trial_win_result_winning_loop)
  then have rs: "\<forall>r\<in>set (replicate MCMAX ?r). trial_win_result r"
    by simp
  have c: "(''DDD'', ''UUD'') \<in> set cbarray"
    by (simp add: set_cbarray udarray_def)
  have "myfind ''DDD'' cyclic_first = 3"
    and "myfind ''UUD'' cyclic_first = 7"
    by (simp_all add: myfind_def cyclic_first_def)
  with c have "map_of ?r (''DDD'', ''UUD'') = Some True"
    by (simp add: map_of_winning_loop)
  then have "win_count (''DDD'', ''UUD'') (replicate MCMAX ?r) = 1000000"
    by (simp add: win_count_def MCMAX_def)
  with aggregateWinningAvg_counts [OF l rs] c have
    "\<exists>m c. aggregateWinningAvg (replicate MCMAX ?r) = Some m \<and>
      map_of m (''DDD'', ''UUD'') = Some c \<and> unat c = 1000000"
    by fastforce
  with l r c show ?thesis
    by blast
qed

lemma sumMontecarloAvg_lookup:
  assumes "\<forall>r\<in>set rs. trial_expectation_result r"
    and "length rs * 100 < 2 ^ 32" and "str \<in> set udarray"
  shows "map fst (sumMontecarloAvg rs) = udarray"
    and "\<exists>w. map_of (sumMontecarloAvg rs) str = Some w \<and>
      unat w = (\<Sum>r\<leftarrow>rs. unat (lookup0 r str))"
    and "(\<Sum>r\<leftarrow>rs. unat (lookup0 r str)) \<le> length rs * 100"
proof -
  from assms(1) have "\<forall>r\<in>set rs. map fst r = udarray"
    by (simp add: trial_expectation_result_def)
  then have conv:
    "sumMontecarloAvg rs = map (\<lambda>str. (str, \<Sum>r\<leftarrow>rs. lookup0 r str)) udarray"
    by (rule sumMontecarloAvg_conv)
  then show "map fst (sumMontecarloAvg rs) = udarray"
    by (simp add: comp_def)
  from assms(1,3) have "\<forall>r\<in>set rs. unat (lookup0 r str) \<le> 100"
    by (simp add: lookup0_bounded(2))
  then show le: "(\<Sum>r\<leftarrow>rs. unat (lookup0 r str)) \<le> length rs * 100"
    by (rule sum_list_bounded)
  from le assms(2) have "(\<Sum>r\<leftarrow>rs. unat (lookup0 r str)) < 2 ^ LENGTH(32)"
    by simp
  then have "unat (\<Sum>r\<leftarrow>rs. lookup0 r str) = (\<Sum>r\<leftarrow>rs. unat (lookup0 r str))"
    by (rule unat_sum_list)
  with conv assms(3) show "\<exists>w. map_of (sumMontecarloAvg rs) str = Some w \<and>
      unat w = (\<Sum>r\<leftarrow>rs. unat (lookup0 r str))"
    by (simp add: map_of_map_restrict)
qed

text \<open>
  \<^bold>\<open>C6\<close>. \<open>sumMontecarloAvg\<close> reduces a collection of Trial Expectation Results (of
  \<open>MCMAX\<close> of them, and of any number \<open>N\<close> with \<open>100 N < 2^32\<close>) to a map with exactly the
  eight patterns as keys, whose value for each pattern is the sum over all trial results
  of the position the trial result records for the pattern: every trial result
  contributes once, with its one entry for the pattern.
\<close>

theorem sumMontecarloAvg_sums:
  assumes "\<forall>r\<in>set rs. trial_expectation_result r"
    and "length rs * unat RANDNUMTABLELEN < 2 ^ 32" and "str \<in> set udarray"
  shows "map fst (sumMontecarloAvg rs) = udarray \<and>
    (\<forall>r\<in>set rs. map_of r str = Some (lookup0 r str)) \<and>
    (\<exists>w. map_of (sumMontecarloAvg rs) str = Some w \<and>
       unat w = (\<Sum>r\<leftarrow>rs. unat (lookup0 r str)))"
proof -
  from assms(2) have "length rs * 100 < 2 ^ 32"
    by (simp add: RANDNUMTABLELEN_def)
  from sumMontecarloAvg_lookup(1,2) [OF assms(1) this assms(3)] assms(1,3)
  show ?thesis
    by (simp add: lookup0_bounded(1))
qed

theorem sumMontecarloAvg_sums_witness:
  "trial_expectation_result (avg_loop cyclic_first) \<and>
   trial_expectation_result (avg_loop cyclic_second) \<and>
   ''UUD'' \<in> set udarray \<and>
   map_of (sumMontecarloAvg
     [avg_loop cyclic_first,
      avg_loop cyclic_second]) ''UUD'' = Some 10"
proof -
  let ?r1 = "avg_loop cyclic_first"
  let ?r2 = "avg_loop cyclic_second"
  have r1: "trial_expectation_result ?r1" and r2: "trial_expectation_result ?r2"
    by (simp_all add: trial_expectation_result_avg_loop RANDNUMTABLELEN_def length_sequences)
  then have rs: "\<forall>r\<in>set [?r1, ?r2]. trial_expectation_result r"
    by simp
  have l: "length [?r1, ?r2] * unat RANDNUMTABLELEN < 2 ^ 32"
    by (simp add: RANDNUMTABLELEN_def)
  have p: "''UUD'' \<in> set udarray"
    by (simp add: udarray_def)
  have "myfind ''UUD'' cyclic_first = 7"
    and "myfind ''UUD'' cyclic_second = 3"
    by (simp_all add: myfind_def cyclic_first_def cyclic_second_def)
  with p have "unat (lookup0 ?r1 ''UUD'') = 7" and "unat (lookup0 ?r2 ''UUD'') = 3"
    by (simp_all add: lookup0_avg_loop)
  with sumMontecarloAvg_sums [OF rs l p]
  have "\<exists>w. map_of (sumMontecarloAvg [?r1, ?r2]) ''UUD'' = Some w \<and> unat w = 10"
    by simp
  then obtain w where w: "map_of (sumMontecarloAvg [?r1, ?r2]) ''UUD'' = Some w"
    and "unat w = 10"
    by blast
  then have "of_nat (unat w) = (10 :: uint32)"
    by simp
  then have "w = 10"
    by simp
  with w have "map_of (sumMontecarloAvg [?r1, ?r2]) ''UUD'' = Some 10"
    by simp
  with r1 r2 p show ?thesis
    by blast
qed

text \<open>
  \<^bold>\<open>C8\<close>. For every batch of \<open>MCMAX\<close> trials, with \<open>vs\<close> the sequences their win passes
  saw, and every ordered pair of distinct patterns \<open>(A, B)\<close>, the aggregate win count
  of \<open>(A, B)\<close> plus the aggregate win count of \<open>(B, A)\<close> is the number of trials in
  which the positions of \<open>A\<close> and \<open>B\<close> differ; it is at most \<open>MCMAX\<close>, with equality
  exactly when no trial has \<open>A\<close> and \<open>B\<close> at equal positions. A trial in which both
  patterns are absent has them at equal positions.
\<close>

theorem win_counts_pair_sum:
  assumes "length vs = MCMAX" and "A \<in> set udarray" and "B \<in> set udarray" and "A \<noteq> B"
  shows "\<exists>m a b. aggregateWinningAvg (map winning_loop vs) = Some m \<and>
    map_of m (A, B) = Some a \<and> map_of m (B, A) = Some b \<and>
    unat a + unat b = length (filter (\<lambda>u. myfind A u \<noteq> myfind B u) vs) \<and>
    unat a + unat b \<le> MCMAX \<and>
    (unat a + unat b = MCMAX \<longleftrightarrow> (\<forall>u\<in>set vs. myfind A u \<noteq> myfind B u)) \<and>
    (\<forall>u\<in>set vs. \<not> sublist A u \<and> \<not> sublist B u \<longrightarrow> myfind A u = myfind B u)"
proof -
  let ?rs = "map winning_loop vs"
  from assms have AB: "(A, B) \<in> set cbarray" and BA: "(B, A) \<in> set cbarray"
    by (simp_all add: set_cbarray)
  have l: "length ?rs = MCMAX"
    using assms(1) by simp
  have rs: "\<forall>r\<in>set ?rs. trial_win_result r"
    by (simp add: trial_win_result_winning_loop)
  from aggregateWinningAvg_lookup [OF l rs AB] obtain m a
    where m: "aggregateWinningAvg ?rs = Some m" and a: "map_of m (A, B) = Some a"
      and ua: "unat a = win_count (A, B) ?rs"
    by blast
  from aggregateWinningAvg_lookup [OF l rs BA] m obtain b
    where b: "map_of m (B, A) = Some b" and ub: "unat b = win_count (B, A) ?rs"
    by auto
  have "unat a + unat b =
    length (filter (\<lambda>u. myfind A u < myfind B u) vs) +
    length (filter (\<lambda>u. myfind B u < myfind A u) vs)"
    by (simp add: ua ub win_count_winning_loop AB BA)
  also have "\<dots> = length (filter (\<lambda>u. myfind A u < myfind B u \<or> myfind B u < myfind A u) vs)"
    by (rule length_filter_disjoint) auto
  also have "(\<lambda>u. myfind A u < myfind B u \<or> myfind B u < myfind A u) =
    (\<lambda>u. myfind A u \<noteq> myfind B u)"
    by (auto simp add: fun_eq_iff)
  finally have sum: "unat a + unat b = length (filter (\<lambda>u. myfind A u \<noteq> myfind B u) vs)" .
  have le: "length (filter (\<lambda>u. myfind A u \<noteq> myfind B u) vs) \<le> MCMAX"
    using length_filter_le [of "\<lambda>u. myfind A u \<noteq> myfind B u" vs] assms(1) by simp
  have eq: "length (filter (\<lambda>u. myfind A u \<noteq> myfind B u) vs) = MCMAX \<longleftrightarrow>
    (\<forall>u\<in>set vs. myfind A u \<noteq> myfind B u)"
    using length_filter_eq_length [of "\<lambda>u. myfind A u \<noteq> myfind B u" vs] assms(1) by simp
  have "\<forall>u\<in>set vs. \<not> sublist A u \<and> \<not> sublist B u \<longrightarrow> myfind A u = myfind B u"
    by (simp add: myfind_not_found)
  with m a b sum le eq show ?thesis
    by (intro exI [of _ m] exI [of _ a] exI [of _ b]) simp
qed

theorem win_counts_pair_sum_witness:
  "length (replicate MCMAX cyclic_second) = MCMAX \<and>
   ''DUD'' \<in> set udarray \<and> ''UDU'' \<in> set udarray \<and> ''DUD'' \<noteq> ''UDU'' \<and>
   myfind ''DUD'' cyclic_second = myfind ''UDU'' cyclic_second \<and>
   (\<exists>m a b. aggregateWinningAvg (map winning_loop (replicate MCMAX cyclic_second)) = Some m \<and>
      map_of m (''DUD'', ''UDU'') = Some a \<and> map_of m (''UDU'', ''DUD'') = Some b \<and>
      unat a + unat b = 0 \<and> unat a + unat b < MCMAX)"
proof -
  let ?u = cyclic_second
  have l: "length (replicate MCMAX ?u) = MCMAX"
    by simp
  have A: "''DUD'' \<in> set udarray" and B: "''UDU'' \<in> set udarray" and AB: "''DUD'' \<noteq> ''UDU''"
    by (simp_all add: udarray_def)
  have tie: "myfind ''DUD'' ?u = myfind ''UDU'' ?u"
    by (simp add: myfind_def cyclic_second_def)
  from win_counts_pair_sum [OF l A B AB] tie
  have "\<exists>m a b. aggregateWinningAvg (map winning_loop (replicate MCMAX ?u)) = Some m \<and>
      map_of m (''DUD'', ''UDU'') = Some a \<and> map_of m (''UDU'', ''DUD'') = Some b \<and>
      unat a + unat b = 0 \<and> unat a + unat b < MCMAX"
    by (fastforce simp add: MCMAX_def)
  with l A B tie show ?thesis
    by blast
qed

text \<open>
  \<^bold>\<open>C10\<close>. Let \<open>us\<close> be the \<open>MCMAX\<close> sequences of length 100 the expectation passes saw
  and \<open>vs\<close> the \<open>MCMAX\<close> sequences the win passes saw. Every recorded position is at
  most 100, so the sum of the positions of a pattern, over all trials and over any
  first \<open>n\<close> of them, is at most \<open>10^8\<close>, and the number of wins of a pair is at most
  \<open>10^6\<close>, both below \<open>2^32\<close>; the 32-bit value \<open>sumMontecarloAvg\<close> returns for the
  pattern is that sum, and the 32-bit value \<open>aggregateWinningAvg\<close> returns for the pair
  is that number, without wrap-around.
\<close>

theorem aggregation_no_overflow:
  assumes "length us = MCMAX" and "\<forall>u\<in>set us. length u = unat RANDNUMTABLELEN"
    and "length vs = MCMAX" and "str \<in> set udarray" and "sp \<in> set cbarray"
  shows "(\<forall>u\<in>set us. unat (myfind str u) \<le> 100) \<and>
    (\<forall>n. (\<Sum>u\<leftarrow>take n us. unat (myfind str u)) \<le> 100000000) \<and>
    (\<Sum>u\<leftarrow>us. unat (myfind str u)) \<le> 100000000 \<and>
    (100000000 :: nat) < 2 ^ 32 \<and>
    (\<exists>w. map_of (sumMontecarloAvg (map avg_loop us)) str = Some w \<and>
       unat w = (\<Sum>u\<leftarrow>us. unat (myfind str u))) \<and>
    win_count sp (map winning_loop vs) \<le> 1000000 \<and>
    (1000000 :: nat) < 2 ^ 32 \<and>
    (\<exists>m c. aggregateWinningAvg (map winning_loop vs) = Some m \<and>
       map_of m sp = Some c \<and> unat c = win_count sp (map winning_loop vs))"
proof -
  let ?rs = "map avg_loop us"
  from assms(2,4) have pos: "\<forall>u\<in>set us. unat (myfind str u) \<le> 100"
    by (simp add: myfind_le)
  have part: "(\<Sum>u\<leftarrow>take n us. unat (myfind str u)) \<le> 100000000" for n
  proof -
    from pos have "\<forall>u\<in>set (take n us). unat (myfind str u) \<le> 100"
      by (meson in_set_takeD)
    then have "(\<Sum>u\<leftarrow>take n us. unat (myfind str u)) \<le> length (take n us) * 100"
      by (rule sum_list_bounded)
    also from assms(1) have "\<dots> \<le> 100000000"
      by (simp add: MCMAX_def)
    finally show ?thesis .
  qed
  from assms(2) have rs: "\<forall>r\<in>set ?rs. trial_expectation_result r"
    by (simp add: trial_expectation_result_avg_loop)
  from assms(1) have l: "length ?rs * 100 < 2 ^ 32"
    by (simp add: MCMAX_def)
  from assms(4) have eq: "(\<Sum>r\<leftarrow>?rs. unat (lookup0 r str)) = (\<Sum>u\<leftarrow>us. unat (myfind str u))"
    by (simp add: comp_def lookup0_avg_loop)
  from sumMontecarloAvg_lookup(3) [OF rs l assms(4)] assms(1)
  have bound: "(\<Sum>u\<leftarrow>us. unat (myfind str u)) \<le> 100000000"
    unfolding eq by (simp add: MCMAX_def)
  from sumMontecarloAvg_lookup(2) [OF rs l assms(4)]
  have sum: "\<exists>w. map_of (sumMontecarloAvg ?rs) str = Some w \<and>
      unat w = (\<Sum>u\<leftarrow>us. unat (myfind str u))"
    unfolding eq .
  let ?ws = "map winning_loop vs"
  have wl: "length ?ws = MCMAX"
    using assms(3) by simp
  have ws: "\<forall>r\<in>set ?ws. trial_win_result r"
    by (simp add: trial_win_result_winning_loop)
  from aggregateWinningAvg_lookup [OF wl ws assms(5)]
  have agg: "\<exists>m c. aggregateWinningAvg ?ws = Some m \<and>
       map_of m sp = Some c \<and> unat c = win_count sp ?ws"
    by blast
  have "win_count sp ?ws \<le> 1000000"
    using win_count_le [of sp ?ws] assms(3) by (simp add: MCMAX_def)
  with pos part bound sum agg show ?thesis
    by simp
qed

theorem aggregation_no_overflow_witness:
  "length (replicate MCMAX cyclic_first) = MCMAX \<and>
   length cyclic_first = unat RANDNUMTABLELEN \<and>
   length (replicate MCMAX cyclic_second) = MCMAX \<and>
   ''DUD'' \<in> set udarray \<and> (''UUD'', ''DDD'') \<in> set cbarray \<and>
   (\<exists>w. map_of (sumMontecarloAvg (map avg_loop (replicate MCMAX cyclic_first))) ''DUD'' = Some w \<and>
      unat w = 100000000) \<and>
   (\<exists>m c. aggregateWinningAvg (map winning_loop (replicate MCMAX cyclic_second)) = Some m \<and>
      map_of m (''UUD'', ''DDD'') = Some c \<and> unat c = 1000000)"
proof -
  let ?u = cyclic_first
  let ?v = cyclic_second
  have l: "length (replicate MCMAX ?u) = MCMAX" and l': "length (replicate MCMAX ?v) = MCMAX"
    by simp_all
  have u: "length ?u = unat RANDNUMTABLELEN"
    by (simp add: RANDNUMTABLELEN_def length_sequences)
  then have us: "\<forall>u\<in>set (replicate MCMAX ?u). length u = unat RANDNUMTABLELEN"
    by simp
  have p: "''DUD'' \<in> set udarray"
    by (simp add: udarray_def)
  have c: "(''UUD'', ''DDD'') \<in> set cbarray"
    by (simp add: set_cbarray udarray_def)
  have "myfind ''DUD'' ?u = 100"
    by (simp add: myfind_def RANDNUMTABLELEN_def cyclic_first_def)
  then have s: "(\<Sum>u\<leftarrow>replicate MCMAX ?u. unat (myfind ''DUD'' u)) = 100000000"
    by (simp add: sum_list_replicate MCMAX_def)
  have "myfind ''UUD'' ?v = 3" and "myfind ''DDD'' ?v = 5"
    by (simp_all add: myfind_def cyclic_second_def)
  with c have "map_of (winning_loop ?v) (''UUD'', ''DDD'') = Some True"
    by (simp add: map_of_winning_loop)
  then have n: "win_count (''UUD'', ''DDD'') (map winning_loop (replicate MCMAX ?v)) = 1000000"
    by (simp add: win_count_def MCMAX_def)
  from aggregation_no_overflow [OF l us l' p c] l l' u p c show ?thesis
    unfolding s n by blast
qed

end
